theory Spec2Isabelle
  imports Main "HOL-Library.AList"
begin

section \<open>Strings, character classes and the string primitives of the source\<close>

text \<open>
  A Python \<open>str\<close> is modelled as a \<open>string\<close>: a list of 8-bit characters, read as the code
  points U+0000 .. U+00FF. The three character classes below are the ones the source relies on,
  restricted to that range: \<open>str.isspace\<close> (used by \<open>str.split()\<close>), the class \<open>\d\<close> and the
  class \<open>\w\<close> of the \<open>re\<close> module for \<open>str\<close> patterns.
\<close>

definition isspace :: "char \<Rightarrow> bool" where
  "isspace c = (of_char c \<in> {9, 10, 11, 12, 13, 28, 29, 30, 31, 32, 133, 160 :: nat})"

definition isdecimal :: "char \<Rightarrow> bool" where
  "isdecimal c = (c \<in> set ''0123456789'')"

definition isword :: "char \<Rightarrow> bool" where
  "isword c = (let n = (of_char c :: nat) in
     (48 \<le> n \<and> n \<le> 57) \<or> (65 \<le> n \<and> n \<le> 90) \<or> n = 95 \<or> (97 \<le> n \<and> n \<le> 122) \<or>
     n = 170 \<or> n = 178 \<or> n = 179 \<or> n = 181 \<or> n = 185 \<or> n = 186 \<or>
     (188 \<le> n \<and> n \<le> 190) \<or> (192 \<le> n \<and> n \<le> 214) \<or> (216 \<le> n \<and> n \<le> 246) \<or>
     (248 \<le> n \<and> n \<le> 255))"

text \<open>\<open>str.split()\<close> with no argument: the maximal runs of non-whitespace characters, in order.
  The first argument is the word being read.\<close>

fun split_acc :: "string \<Rightarrow> string \<Rightarrow> string list" where
  "split_acc cur [] = (if cur = [] then [] else [cur])"
| "split_acc cur (c # s) =
     (if isspace c then (if cur = [] then split_acc [] s else cur # split_acc [] s)
      else split_acc (cur @ [c]) s)"

definition split :: "string \<Rightarrow> string list" where
  "split s = split_acc [] s"

text \<open>\<open>" ".join(words)\<close>.\<close>

fun join :: "string list \<Rightarrow> string" where
  "join [] = []"
| "join [w] = w"
| "join (w # v # ws) = w @ CHR '' '' # join (v # ws)"

section \<open>Number-format normalization\<close>

text \<open>
  \<open>_normalize_numbers\<close> is \<open>re.sub(r"\.(\d*?)0+\b", repl, sentence)\<close>. The pattern is matched
  by backtracking, and the model follows the matcher.

  \<open>word_boundary\<close> is \<open>\b\<close> between the character before a position and the one after it
  (\<open>None\<close> at either end of the string).
\<close>

definition word_boundary :: "char option \<Rightarrow> char option \<Rightarrow> bool" where
  "word_boundary prev nxt =
     ((case prev of None \<Rightarrow> False | Some c \<Rightarrow> isword c) \<noteq>
      (case nxt of None \<Rightarrow> False | Some c \<Rightarrow> isword c))"

definition peek :: "string \<Rightarrow> char option" where
  "peek s = (case s of [] \<Rightarrow> None | c # _ \<Rightarrow> Some c)"

text \<open>\<open>0+\b\<close> at the head of the string: the greedy \<open>0+\<close> takes every zero it can and gives
  them back one at a time until \<open>\b\<close> holds. The result is the number of zeros matched.\<close>

fun match_zeros :: "string \<Rightarrow> nat option" where
  "match_zeros [] = None"
| "match_zeros (c # s) =
     (if c = CHR ''0'' then
        (case match_zeros s of
           Some m \<Rightarrow> Some (Suc m)
         | None \<Rightarrow> if word_boundary (Some c) (peek s) then Some 1 else None)
      else None)"

text \<open>\<open>(\d*?)0+\b\<close> after the dot: the lazy group first tries to stop where it is, and takes
  one more digit only when the rest of the pattern fails there. The first argument is the group
  read so far; the result is group 1 and the number of zeros matched after it.\<close>

fun match_group :: "string \<Rightarrow> string \<Rightarrow> (string \<times> nat) option" where
  "match_group g [] = None"
| "match_group g (c # s) =
     (case match_zeros (c # s) of
        Some m \<Rightarrow> Some (g, m)
      | None \<Rightarrow> if isdecimal c then match_group (g @ [c]) s else None)"

text \<open>The replacement function: \<open>lambda m: f".{m[1]}" if len(m[1]) else ""\<close>.\<close>

definition repl :: "string \<Rightarrow> string" where
  "repl g = (if length g \<noteq> 0 then CHR ''.'' # g else [])"

text \<open>\<open>re.sub\<close>: leftmost matches, not overlapping, each replaced; every other character is
  copied. A match starts at a dot only.\<close>

function normalize_numbers :: "string \<Rightarrow> string" where
  "normalize_numbers [] = []"
| "normalize_numbers (c # s) =
     (if c = CHR ''.'' then
        (case match_group [] s of
           Some (g, m) \<Rightarrow> repl g @ normalize_numbers (drop (length g + m) s)
         | None \<Rightarrow> c # normalize_numbers s)
      else c # normalize_numbers s)"
  by pat_completeness auto
termination
  by (relation "measure length") auto

section \<open>Floating-point literals\<close>

text \<open>
  The sentence loop asks whether \<open>float(word)\<close> raises \<open>ValueError\<close>. \<open>float\<close> is a builtin
  of the language, not code of the repository; \<open>parses_as_float\<close> is its acceptance test on a
  word that holds no whitespace, which is what \<open>split\<close> produces (on other strings \<open>float\<close>
  first strips surrounding whitespace). The steps are the interpreter's: check the underscores,
  drop them, read an optional sign, then either \<open>inf\<close>, \<open>infinity\<close> or \<open>nan\<close> in any letter case,
  or a decimal literal with an optional exponent; the whole word must be used up.
\<close>

definition tolower :: "char \<Rightarrow> char" where
  "tolower c =
     (case map_of (zip ''ABCDEFGHIJKLMNOPQRSTUVWXYZ'' ''abcdefghijklmnopqrstuvwxyz'') c of
        Some l \<Rightarrow> l | None \<Rightarrow> c)"

text \<open>An underscore is allowed only between two digits. The first argument is the previous
  character (NUL before the first one).\<close>

fun underscores_ok :: "char \<Rightarrow> string \<Rightarrow> bool" where
  "underscores_ok prev [] = (prev \<noteq> CHR ''_'')"
| "underscores_ok prev (c # s) =
     (if c = CHR ''_'' then isdecimal prev \<and> underscores_ok c s
      else (prev = CHR ''_'' \<longrightarrow> isdecimal c) \<and> underscores_ok c s)"

definition strip_sign :: "string \<Rightarrow> string" where
  "strip_sign s = (case s of [] \<Rightarrow> [] | c # t \<Rightarrow> if c = CHR ''-'' \<or> c = CHR ''+'' then t else s)"

definition inf_or_nan :: "string \<Rightarrow> bool" where
  "inf_or_nan s = (map tolower s \<in> {''inf'', ''infinity'', ''nan''})"

definition exponent_ok :: "string \<Rightarrow> bool" where
  "exponent_ok s =
     (case s of [] \<Rightarrow> True
      | c # t \<Rightarrow> (c = CHR ''e'' \<or> c = CHR ''E'') \<and>
                 (let d = strip_sign t in d \<noteq> [] \<and> (\<forall>x\<in>set d. isdecimal x)))"

definition decimal_literal :: "string \<Rightarrow> bool" where
  "decimal_literal s =
     (let ip = takeWhile isdecimal s; r = dropWhile isdecimal s in
      case r of
        c # t \<Rightarrow>
          if c = CHR ''.'' then
            (ip \<noteq> [] \<or> takeWhile isdecimal t \<noteq> []) \<and> exponent_ok (dropWhile isdecimal t)
          else ip \<noteq> [] \<and> exponent_ok r
      | [] \<Rightarrow> ip \<noteq> [])"

definition parses_as_float :: "string \<Rightarrow> bool" where
  "parses_as_float w =
     (underscores_ok (CHR 0x00) w \<and>
      (let u = strip_sign (filter (\<lambda>c. c \<noteq> CHR ''_'') w) in inf_or_nan u \<or> decimal_literal u))"

section \<open>The tagger\<close>

datatype error = IndexError

definition TAGS :: "string list" where
  "TAGS = [''x'', ''y'', ''z'', ''j'', ''q'', ''v'', ''w'', ''r'']"

text \<open>\<open>xs[n]\<close> for a non-negative index: out of range raises \<open>IndexError\<close>.\<close>

definition index_list :: "'a list \<Rightarrow> nat \<Rightarrow> error + 'a" where
  "index_list xs n = (if n < length xs then Inr (xs ! n) else Inl IndexError)"

text \<open>The key \<open>f"<{t}>"\<close> built from an alphabet symbol.\<close>

definition tag_key :: "string \<Rightarrow> string" where
  "tag_key t = ''<'' @ t @ ''>''"

text \<open>
  A \<open>dict\<close> keeps its keys in insertion order, and order matters for the lookup table, so a
  dictionary is an association list: \<open>d[k] = v\<close> is \<open>AList.update k v d\<close> (the value is replaced
  in place when \<open>k\<close> is present, the pair is appended otherwise), \<open>k in d\<close> and \<open>d[k]\<close> read
  \<open>map_of d k\<close>, \<open>del d[k]\<close> is \<open>AList.delete k d\<close> and \<open>len(d)\<close> is \<open>length d\<close>.

  The first loop of \<open>__map_numbers\<close>, over the words of the sentence, with the dictionary built
  so far. It returns the rewritten word list and the dictionary.
\<close>

fun tag_sentence ::
  "string list \<Rightarrow> (string \<times> string) list \<Rightarrow> error + (string list \<times> (string \<times> string) list)" where
  "tag_sentence [] lookup_dict = Inr ([], lookup_dict)"
| "tag_sentence (word # rest) lookup_dict =
     (if parses_as_float word then
        (case index_list TAGS (length lookup_dict) of
           Inl e \<Rightarrow> Inl e
         | Inr t \<Rightarrow>
             (let key = tag_key t in
              case tag_sentence rest (AList.update key word lookup_dict) of
                Inl e \<Rightarrow> Inl e
              | Inr (out, d) \<Rightarrow> Inr (key # out, d)))
      else
        (case tag_sentence rest lookup_dict of
           Inl e \<Rightarrow> Inl e
         | Inr (out, d) \<Rightarrow> Inr (word # out, d)))"

text \<open>\<open>{ v: k for k, v in lookup_dict.items() }\<close>.\<close>

definition invert :: "(string \<times> string) list \<Rightarrow> (string \<times> string) list" where
  "invert lookup_dict = fold (\<lambda>(k, v) d. AList.update v k d) lookup_dict []"

text \<open>The second loop, over the words of the equation, with what is left of the inverted
  dictionary.\<close>

fun tag_equation :: "string list \<Rightarrow> (string \<times> string) list \<Rightarrow> string list" where
  "tag_equation [] adjust_dict = []"
| "tag_equation (word # rest) adjust_dict =
     (case map_of adjust_dict word of
        Some t \<Rightarrow> t # tag_equation rest (AList.delete word adjust_dict)
      | None \<Rightarrow> word # tag_equation rest adjust_dict)"

definition map_numbers ::
  "string \<Rightarrow> string \<Rightarrow> error + (string \<times> string \<times> (string \<times> string) list)" where
  "map_numbers sentence equation =
     (let sentence_list = split sentence; equation_list = split equation in
      case tag_sentence sentence_list [] of
        Inl e \<Rightarrow> Inl e
      | Inr (tagged_list, lookup_dict) \<Rightarrow>
          Inr (join tagged_list, join (tag_equation equation_list (invert lookup_dict)),
               lookup_dict))"

record NumberTag =
  original_sentence :: string
  original_equation :: string
  tagged_sentence :: string
  tagged_equation :: string
  lookup_table :: "(string \<times> string) list"

text \<open>\<open>NumberTag(sentence, equation)\<close>: the constructor, which fails when \<open>__map_numbers\<close>
  does.\<close>

definition NumberTag_init :: "string \<Rightarrow> string \<Rightarrow> error + NumberTag" where
  "NumberTag_init sentence equation =
     (let os = normalize_numbers sentence; oe = normalize_numbers equation in
      case map_numbers os oe of
        Inl e \<Rightarrow> Inl e
      | Inr (ts, te, lt) \<Rightarrow>
          Inr \<lparr>original_sentence = os, original_equation = oe, tagged_sentence = ts,
               tagged_equation = te, lookup_table = lt\<rparr>)"

definition get_originals :: "NumberTag \<Rightarrow> string \<times> string" where
  "get_originals nt = (original_sentence nt, original_equation nt)"

definition get_masked :: "NumberTag \<Rightarrow> string \<times> string" where
  "get_masked nt = (tagged_sentence nt, tagged_equation nt)"

definition unmask_word :: "NumberTag \<Rightarrow> string \<Rightarrow> string" where
  "unmask_word nt word = (case map_of (lookup_table nt) word of Some v \<Rightarrow> v | None \<Rightarrow> word)"

definition unmask_sentence :: "NumberTag \<Rightarrow> string \<Rightarrow> string" where
  "unmask_sentence nt sentence = join (map (unmask_word nt) (split sentence))"

section \<open>Notions used in the statements and proofs\<close>

text \<open>The numeric words of a sentence: the words on which \<open>float\<close> succeeds, in order, with
  repetitions.\<close>

definition numeric_words :: "string \<Rightarrow> string list" where
  "numeric_words s = filter parses_as_float (split s)"

text \<open>A string that \<open>\b\<close> accepts after a zero: empty, or starting with a non-word character.\<close>

definition open_end :: "string \<Rightarrow> bool" where
  "open_end r = (case r of [] \<Rightarrow> True | c # _ \<Rightarrow> \<not> isword c)"

text \<open>The pattern matches after a dot exactly when the digits that follow end in a zero and
  are followed by a word boundary.\<close>

definition matchable :: "string \<Rightarrow> bool" where
  "matchable t = (takeWhile isdecimal t \<noteq> [] \<and> last (takeWhile isdecimal t) = CHR ''0'' \<and>
      open_end (dropWhile isdecimal t))"

text \<open>A word as \<open>split\<close> produces them: not empty, no whitespace.\<close>

definition good_word :: "string \<Rightarrow> bool" where
  "good_word w = (w \<noteq> [] \<and> (\<forall>c\<in>set w. \<not> isspace c))"

text \<open>The lookup table that maps the first tags, in alphabet order, to the given values.\<close>

definition table_of :: "string list \<Rightarrow> (string \<times> string) list" where
  "table_of vs = zip (map tag_key TAGS) vs"

text \<open>The sentence words with the numeric ones replaced by the tags from position \<open>n\<close> on.\<close>

fun retag :: "nat \<Rightarrow> string list \<Rightarrow> string list" where
  "retag n [] = []"
| "retag n (w # ws) =
     (if parses_as_float w then tag_key (TAGS ! n) # retag (Suc n) ws else w # retag n ws)"

text \<open>Unmasking one word with a given lookup table.\<close>

definition um :: "(string \<times> string) list \<Rightarrow> string \<Rightarrow> string" where
  "um d w = (case map_of d w of Some v \<Rightarrow> v | None \<Rightarrow> w)"

text \<open>The instance a successful construction returns.\<close>

definition built :: "string \<Rightarrow> string \<Rightarrow> NumberTag" where
  "built s e = \<lparr>original_sentence = normalize_numbers s, original_equation = normalize_numbers e,
     tagged_sentence = join (retag 0 (split (normalize_numbers s))),
     tagged_equation = join (tag_equation (split (normalize_numbers e))
        (invert (table_of (numeric_words (normalize_numbers s))))),
     lookup_table = table_of (numeric_words (normalize_numbers s))\<rparr>"

section \<open>The regular expression\<close>

text \<open>
  Of the character classes the proofs use only these facts: a decimal digit is a word
  character, the dot is neither a digit nor a word character nor whitespace, whitespace is
  neither a digit nor a word character, and the space is whitespace.
\<close>

lemma isword0: "isword CHR ''0''" by (simp add: isword_def)
lemma isdec0: "isdecimal CHR ''0''" by (simp add: isdecimal_def)
lemma dec_word: "isdecimal c \<Longrightarrow> isword c" by (auto simp add: isword_def isdecimal_def)

lemma open_end_simps: "open_end [] = True" "open_end (c # s) = (\<not> isword c)"
  by (simp_all add: open_end_def)

lemma wb0: "word_boundary (Some (CHR ''0'')) (peek s) = open_end s"
  by (cases s) (simp_all add: word_boundary_def peek_def isword0 open_end_def)

lemma match_zeros_Some:
  "match_zeros t = Some m \<Longrightarrow> takeWhile isdecimal t = replicate m (CHR ''0'') \<and> 0 < m \<and> open_end (dropWhile isdecimal t)"
proof (induction t arbitrary: m)
  case Nil then show ?case by simp
next
  case (Cons c s)
  from Cons.prems have c: "c = CHR ''0''" by (simp split: if_splits)
  show ?case
  proof (cases "match_zeros s")
    case (Some k)
    with Cons.prems c have m: "m = Suc k" by simp
    from Cons.IH[OF Some] show ?thesis using c m by (simp add: isdec0)
  next
    case None
    with Cons.prems c have m: "m = 1" and oe: "open_end s" by (simp_all add: wb0 split: if_splits)
    from oe have "takeWhile isdecimal s = []" "dropWhile isdecimal s = s"
      by (cases s; simp add: open_end_simps; use dec_word in blast)+
    then show ?thesis using c m oe by (simp add: isdec0)
  qed
qed

lemma match_zeros_complete:
  "takeWhile isdecimal t = replicate m (CHR ''0'') \<Longrightarrow> 0 < m \<Longrightarrow> open_end (dropWhile isdecimal t)
   \<Longrightarrow> match_zeros t = Some m"
proof (induction t arbitrary: m)
  case Nil then show ?case by simp
next
  case (Cons c s)
  from Cons.prems(1,2) have dc: "isdecimal c" by (cases "isdecimal c") auto
  with Cons.prems(1,2) obtain k where m: "m = Suc k" and c: "c = CHR ''0''"
    and tw: "takeWhile isdecimal s = replicate k (CHR ''0'')"
    by (cases m) auto
  from Cons.prems(3) dc have oe: "open_end (dropWhile isdecimal s)" by simp
  show ?case
  proof (cases k)
    case 0
    with tw have "takeWhile isdecimal s = []" by simp
    then have ds: "dropWhile isdecimal s = s" by (cases s) (auto split: if_splits)
    with oe have oes: "open_end s" by simp
    have "match_zeros s = None"
    proof (cases "match_zeros s")
      case (Some j)
      from match_zeros_Some[OF Some] \<open>takeWhile isdecimal s = []\<close> show ?thesis by auto
    qed simp
    then show ?thesis using c m 0 oes by (simp add: wb0)
  next
    case (Suc j)
    from Cons.IH[OF tw _ oe] Suc have "match_zeros s = Some k" by simp
    then show ?thesis using c m by simp
  qed
qed

lemma match_group_Some:
  "match_group g t = Some (g', m) \<Longrightarrow>
     \<exists>d. g' = g @ d \<and> takeWhile isdecimal t = d @ replicate m (CHR ''0'') \<and> 0 < m \<and>
         (d = [] \<or> last d \<noteq> CHR ''0'') \<and> open_end (dropWhile isdecimal t)"
proof (induction t arbitrary: g)
  case Nil then show ?case by simp
next
  case (Cons c s)
  show ?case
  proof (cases "match_zeros (c # s)")
    case (Some k)
    with Cons.prems have "g' = g" "m = k" by (simp_all del: match_zeros.simps)
    with match_zeros_Some[OF Some] show ?thesis by auto
  next
    case None
    with Cons.prems have dc: "isdecimal c" and mg: "match_group (g @ [c]) s = Some (g', m)"
      by (simp_all del: match_zeros.simps split: if_splits)
    from Cons.IH[OF mg] obtain d where d: "g' = (g @ [c]) @ d"
      "takeWhile isdecimal s = d @ replicate m (CHR ''0'')" "0 < m"
      "d = [] \<or> last d \<noteq> CHR ''0''" "open_end (dropWhile isdecimal s)" by blast
    have "c \<noteq> CHR ''0''" if "d = []"
    proof
      assume c0: "c = CHR ''0''"
      have "takeWhile isdecimal (c # s) = replicate (Suc m) (CHR ''0'')"
        using dc d(2) that c0 by simp
      from match_zeros_complete[OF this] d(5) dc None show False by simp
    qed
    then have "c # d = [] \<or> last (c # d) \<noteq> CHR ''0''" using d(4) by auto
    moreover have "g' = g @ (c # d)" using d(1) by simp
    moreover have "takeWhile isdecimal (c # s) = (c # d) @ replicate m (CHR ''0'')"
      using dc d(2) by simp
    moreover have "open_end (dropWhile isdecimal (c # s))" using dc d(5) by simp
    ultimately show ?thesis using d(3) by blast
  qed
qed

lemma match_group_None: "match_group g t = None \<Longrightarrow> \<not> matchable t"
proof (induction t arbitrary: g)
  case Nil then show ?case by (simp add: matchable_def)
next
  case (Cons c s)
  from Cons.prems have mz: "match_zeros (c # s) = None"
    by (simp del: match_zeros.simps split: option.splits)
  show ?case
  proof (cases "isdecimal c")
    case False then show ?thesis by (simp add: matchable_def)
  next
    case True
    with Cons.prems mz have "match_group (g @ [c]) s = None" by (simp del: match_zeros.simps)
    from Cons.IH[OF this] have ns: "\<not> matchable s" .
    show ?thesis
    proof
      assume ma: "matchable (c # s)"
      show False
      proof (cases "takeWhile isdecimal s = []")
        case True
        with ma \<open>isdecimal c\<close> have "takeWhile isdecimal (c # s) = replicate 1 (CHR ''0'')"
          and "open_end (dropWhile isdecimal (c # s))" by (simp_all add: matchable_def)
        from match_zeros_complete[OF this(1) _ this(2)] mz show False by simp
      next
        case False
        with ma \<open>isdecimal c\<close> have "matchable s" by (simp add: matchable_def)
        with ns show False by simp
      qed
    qed
  qed
qed

lemma dot_nword: "\<not> isword CHR ''.''" by (simp add: isword_def)
lemma dot_ndec: "\<not> isdecimal CHR ''.''" by (simp add: isdecimal_def)

lemma matchable_iff: "matchable t \<longleftrightarrow> match_group g t \<noteq> None"
proof
  assume "matchable t"
  then show "match_group g t \<noteq> None" using match_group_None by blast
next
  assume "match_group g t \<noteq> None"
  then obtain g' m where "match_group g t = Some (g', m)" by auto
  from match_group_Some[OF this] show "matchable t" by (auto simp: matchable_def)
qed

lemma match_group_shape:
  assumes "match_group [] s = Some (g, m)"
  shows "drop (length g + m) s = dropWhile isdecimal s" and "\<forall>c\<in>set g. isdecimal c"
    and "g = [] \<or> last g \<noteq> CHR ''0''" and "open_end (dropWhile isdecimal s)"
proof -
  from match_group_Some[OF assms] have tw: "takeWhile isdecimal s = g @ replicate m (CHR ''0'')"
    and l: "g = [] \<or> last g \<noteq> CHR ''0''" and oe: "open_end (dropWhile isdecimal s)" by auto
  from tw have "length (takeWhile isdecimal s) = length g + m" by simp
  then show "drop (length g + m) s = dropWhile isdecimal s"
    by (metis dropWhile_eq_drop)
  have "set g \<subseteq> set (takeWhile isdecimal s)" using tw by simp
  then show "\<forall>c\<in>set g. isdecimal c" by (meson set_takeWhileD subsetD)
  show "g = [] \<or> last g \<noteq> CHR ''0''" by (rule l)
  show "open_end (dropWhile isdecimal s)" by (rule oe)
qed

lemma normalize_dot_match:
  "match_group [] s = Some (g, m) \<Longrightarrow>
   normalize_numbers (CHR ''.'' # s) = repl g @ normalize_numbers (dropWhile isdecimal s)"
  using match_group_shape(1)[of s g m] by simp

lemma normalize_dot_nomatch:
  "\<not> matchable s \<Longrightarrow> normalize_numbers (CHR ''.'' # s) = CHR ''.'' # normalize_numbers s"
  using matchable_iff[of s "[]"] by (cases "match_group [] s") simp_all

lemma normalize_other:
  "c \<noteq> CHR ''.'' \<Longrightarrow> normalize_numbers (c # s) = c # normalize_numbers s"
  by simp

declare normalize_numbers.simps(2) [simp del]

lemma normalize_digits:
  "\<forall>c\<in>set d. isdecimal c \<Longrightarrow> normalize_numbers (d @ s) = d @ normalize_numbers s"
proof (induction d)
  case Nil show ?case by simp
next
  case (Cons a d)
  then have "a \<noteq> CHR ''.''" using dot_ndec by auto
  with Cons show ?case by (simp add: normalize_other)
qed

lemma normalize_cases [case_names Nil match nomatch other]:
  assumes "P []"
    and "\<And>s g m. match_group [] s = Some (g, m) \<Longrightarrow> P (dropWhile isdecimal s) \<Longrightarrow> P (CHR ''.'' # s)"
    and "\<And>s. \<not> matchable s \<Longrightarrow> P s \<Longrightarrow> P (CHR ''.'' # s)"
    and "\<And>c s. c \<noteq> CHR ''.'' \<Longrightarrow> P s \<Longrightarrow> P (c # s)"
  shows "P s"
proof (induction s rule: normalize_numbers.induct)
  case 1 show ?case by (rule assms(1))
next
  case (2 c s)
  show ?case
  proof (cases "c = CHR ''.''")
    case False
    with 2(3) assms(4) show ?thesis by blast
  next
    case True
    show ?thesis
    proof (cases "match_group [] s")
      case None
      from 2(1)[OF True None] have "P s" .
      moreover from None have "\<not> matchable s" using matchable_iff[of s "[]"] by simp
      ultimately show ?thesis using assms(3) True by blast
    next
      case (Some a)
      obtain g m where a: "a = (g, m)" by (cases a)
      from 2(2)[OF True Some a[symmetric]] have "P (drop (length g + m) s)" .
      with match_group_shape(1)[of s g m] Some a have "P (dropWhile isdecimal s)" by simp
      with assms(2) Some a True show ?thesis by blast
    qed
  qed
qed

lemma open_end_normalize: "open_end s \<Longrightarrow> open_end (normalize_numbers s)"
proof (induction s rule: normalize_cases)
  case Nil then show ?case by simp
next
  case (match s g m)
  show ?case
  proof (cases "g = []")
    case True
    with match match_group_shape(4)[OF match(1)] show ?thesis
      by (simp add: normalize_dot_match repl_def)
  next
    case False
    with match(1) show ?thesis by (simp add: normalize_dot_match repl_def open_end_simps dot_nword)
  qed
next
  case (nomatch s)
  then show ?case by (simp add: normalize_dot_nomatch open_end_simps dot_nword)
next
  case (other c s)
  then show ?case by (simp add: normalize_other open_end_simps)
qed

lemma open_end_takeWhile:
  "open_end r \<Longrightarrow> \<forall>c\<in>set d. isdecimal c \<Longrightarrow> takeWhile isdecimal (d @ r) = d \<and> dropWhile isdecimal (d @ r) = r"
  by (cases r) (auto simp: open_end_simps dec_word takeWhile_append dropWhile_append)

lemma not_matchable_normalize:
  assumes "\<not> matchable s" shows "\<not> matchable (normalize_numbers s)"
proof -
  define d r where "d = takeWhile isdecimal s" and "r = dropWhile isdecimal s"
  have s: "s = d @ r" and dd: "\<forall>c\<in>set d. isdecimal c"
    by (auto simp: d_def r_def dest: set_takeWhileD)
  have n: "normalize_numbers s = d @ normalize_numbers r"
    unfolding s by (rule normalize_digits[OF dd])
  show ?thesis
  proof (cases "open_end r")
    case True
    from open_end_takeWhile[OF open_end_normalize[OF True] dd] n
    have "takeWhile isdecimal (normalize_numbers s) = d" by simp
    with assms True show ?thesis by (auto simp: matchable_def d_def r_def)
  next
    case False
    then obtain c r' where r: "r = c # r'" and wc: "isword c"
      by (cases r) (auto simp: open_end_simps)
    have ndc: "\<not> isdecimal c" using r r_def by (metis hd_dropWhile list.sel(1) list.distinct(1))
    from wc have "c \<noteq> CHR ''.''" using dot_nword by auto
    then have "normalize_numbers s = d @ c # normalize_numbers r'"
      using n r by (simp add: normalize_other)
    then have "dropWhile isdecimal (normalize_numbers s) = c # normalize_numbers r'"
      using dd ndc by (simp add: dropWhile_append)
    then show ?thesis using wc by (simp add: matchable_def open_end_simps)
  qed
qed

section \<open>Words, joining and splitting\<close>

lemma split_acc_word:
  "\<forall>c\<in>set w. \<not> isspace c \<Longrightarrow> split_acc cur (w @ s) = split_acc (cur @ w) s"
  by (induction w arbitrary: cur) simp_all

lemma isspace_space: "isspace CHR '' ''" by (simp add: isspace_def)

lemma split_acc_join:
  "\<forall>w\<in>set ws. good_word w \<Longrightarrow> split_acc [] (join ws) = ws"
proof (induction ws rule: join.induct)
  case 1 show ?case by simp
next
  case (2 w)
  then have "split_acc [] (w @ []) = split_acc ([] @ w) []"
    by (intro split_acc_word) (simp add: good_word_def)
  with 2 show ?case by (simp add: good_word_def)
next
  case (3 w v ws)
  from 3(2) have "split_acc [] (w @ CHR '' '' # join (v # ws)) = split_acc ([] @ w) (CHR '' '' # join (v # ws))"
    by (intro split_acc_word) (simp add: good_word_def)
  with 3 show ?case by (simp add: good_word_def isspace_space)
qed

lemma split_join: "\<forall>w\<in>set ws. good_word w \<Longrightarrow> split (join ws) = ws"
  by (simp add: split_def split_acc_join)

lemma split_acc_good:
  "\<forall>c\<in>set cur. \<not> isspace c \<Longrightarrow> w \<in> set (split_acc cur s) \<Longrightarrow> good_word w"
proof (induction s arbitrary: cur)
  case Nil
  then show ?case by (auto simp: good_word_def split: if_splits)
next
  case (Cons a s)
  show ?case
  proof (cases "isspace a")
    case True
    with Cons.prems(2) have "w = cur \<and> cur \<noteq> [] \<or> w \<in> set (split_acc [] s)"
      by (auto split: if_splits)
    then show ?thesis
    proof
      assume "w = cur \<and> cur \<noteq> []"
      with Cons.prems(1) show ?thesis by (simp add: good_word_def)
    next
      assume "w \<in> set (split_acc [] s)"
      then show ?thesis by (intro Cons.IH[of "[]"]) simp_all
    qed
  next
    case False
    with Cons.prems(2) have "w \<in> set (split_acc (cur @ [a]) s)" by simp
    then show ?thesis using Cons.prems(1) False by (intro Cons.IH[of "cur @ [a]"]) simp_all
  qed
qed

lemma split_good: "w \<in> set (split s) \<Longrightarrow> good_word w"
  unfolding split_def by (rule split_acc_good[of "[]"]) simp_all

section \<open>Tags, the lookup table and the sentence loop\<close>

text \<open>A tag is never a numeric word, whatever stands between the angle brackets.\<close>

lemma tag_key_not_float: "\<not> parses_as_float (tag_key t)"
  by (simp add: parses_as_float_def tag_key_def strip_sign_def inf_or_nan_def tolower_def
      decimal_literal_def isdecimal_def Let_def)

lemma tag_key_inj: "tag_key a = tag_key b \<longleftrightarrow> a = b"
  by (simp add: tag_key_def)

lemma distinct_TAGS: "distinct TAGS" by (simp add: TAGS_def)
lemma length_TAGS: "length TAGS = 8" by (simp add: TAGS_def)

lemma good_tag_key: "t \<in> set TAGS \<Longrightarrow> good_word (tag_key t)"
  by (auto simp: TAGS_def tag_key_def good_word_def isspace_def)

lemma update_fresh: "k \<notin> fst ` set al \<Longrightarrow> AList.update k v al = al @ [(k, v)]"
  by (induction al) auto

lemma zip_snoc: "length vs < length ks \<Longrightarrow> zip ks (vs @ [w]) = zip ks vs @ [(ks ! length vs, w)]"
proof (induction vs arbitrary: ks)
  case Nil then show ?case by (cases ks) simp_all
next
  case (Cons v vs) then show ?case by (cases ks) simp_all
qed

lemma table_of_snoc:
  "length vs < length TAGS \<Longrightarrow> table_of (vs @ [w]) = table_of vs @ [(tag_key (TAGS ! length vs), w)]"
  unfolding table_of_def using zip_snoc[of vs "map tag_key TAGS" w] by simp

lemma keys_table_of:
  "length vs \<le> length TAGS \<Longrightarrow> map fst (table_of vs) = map tag_key (take (length vs) TAGS)"
  unfolding table_of_def by (simp add: take_map[symmetric] map_fst_zip_take min_def)

lemma distinct_keys_table_of: "length vs \<le> length TAGS \<Longrightarrow> distinct (map fst (table_of vs))"
  by (simp add: keys_table_of distinct_map distinct_TAGS inj_on_def tag_key_inj)

lemma fresh_key:
  assumes "length vs < length TAGS"
  shows "tag_key (TAGS ! length vs) \<notin> fst ` set (table_of vs)"
proof -
  have "distinct (map fst (table_of (vs @ [w])))" for w
    using assms by (intro distinct_keys_table_of) simp
  then show ?thesis using assms by (simp add: table_of_snoc image_iff)
qed

lemma length_table_of: "length vs \<le> length TAGS \<Longrightarrow> length (table_of vs) = length vs"
  by (simp add: table_of_def)

lemma tag_sentence_char:
  "length vs \<le> length TAGS \<Longrightarrow>
   tag_sentence ws (table_of vs) =
     (if length vs + length (filter parses_as_float ws) \<le> length TAGS
      then Inr (retag (length vs) ws, table_of (vs @ filter parses_as_float ws))
      else Inl IndexError)"
proof (induction ws arbitrary: vs)
  case Nil then show ?case by simp
next
  case (Cons w ws)
  show ?case
  proof (cases "parses_as_float w")
    case False
    with Cons show ?thesis by simp
  next
    case True
    show ?thesis
    proof (cases "length vs < length TAGS")
      case False
      with True Cons.prems show ?thesis by (simp add: index_list_def length_table_of)
    next
      case lt: True
      have upd: "AList.update (tag_key (TAGS ! length vs)) w (table_of vs) = table_of (vs @ [w])"
        using lt by (simp add: update_fresh fresh_key table_of_snoc)
      have ih: "tag_sentence ws (table_of (vs @ [w])) =
          (if length (vs @ [w]) + length (filter parses_as_float ws) \<le> length TAGS
           then Inr (retag (length (vs @ [w])) ws, table_of ((vs @ [w]) @ filter parses_as_float ws))
           else Inl IndexError)"
        using lt by (intro Cons.IH) simp
      have step: "tag_sentence (w # ws) (table_of vs) =
          (case tag_sentence ws (table_of (vs @ [w])) of Inl e \<Rightarrow> Inl e
           | Inr (out, d) \<Rightarrow> Inr (tag_key (TAGS ! length vs) # out, d))"
        using True lt Cons.prems upd
        by (simp add: index_list_def length_table_of Let_def)
      show ?thesis unfolding step ih using True by simp
    qed
  qed
qed

lemma map_numbers_char:
  "map_numbers sentence equation =
     (if length (numeric_words sentence) \<le> length TAGS
      then Inr (join (retag 0 (split sentence)),
                join (tag_equation (split equation) (invert (table_of (numeric_words sentence)))),
                table_of (numeric_words sentence))
      else Inl IndexError)"
proof -
  have "table_of [] = []" by (simp add: table_of_def)
  with tag_sentence_char[of "[]" "split sentence"] show ?thesis
    by (simp add: map_numbers_def numeric_words_def Let_def)
qed

lemma init_char:
  "NumberTag_init s e =
     (if length (numeric_words (normalize_numbers s)) \<le> length TAGS then Inr (built s e)
      else Inl IndexError)"
  by (simp add: NumberTag_init_def map_numbers_char built_def Let_def)

section \<open>The rewritten words\<close>

lemma length_retag: "length (retag n ws) = length ws"
  by (induction ws arbitrary: n) simp_all

lemma retag_nth_other:
  "i < length ws \<Longrightarrow> \<not> parses_as_float (ws ! i) \<Longrightarrow> retag n ws ! i = ws ! i"
proof (induction ws arbitrary: n i)
  case Nil then show ?case by simp
next
  case (Cons w ws) then show ?case by (cases i) simp_all
qed

lemma retag_no_numbers: "filter parses_as_float ws = [] \<Longrightarrow> retag n ws = ws"
  by (induction ws arbitrary: n) (simp_all split: if_splits)

lemma retag_good:
  "n + length (filter parses_as_float ws) \<le> length TAGS \<Longrightarrow> \<forall>w\<in>set ws. good_word w \<Longrightarrow>
   \<forall>w\<in>set (retag n ws). good_word w"
proof (induction ws arbitrary: n)
  case Nil then show ?case by simp
next
  case (Cons w ws)
  show ?case
  proof (cases "parses_as_float w")
    case True
    with Cons.prems have "n < length TAGS" "Suc n + length (filter parses_as_float ws) \<le> length TAGS"
      by simp_all
    with Cons.IH[of "Suc n"] Cons.prems(2) True show ?thesis
      by (simp add: good_tag_key)
  next
    case False
    with Cons.IH[of n] Cons.prems show ?thesis by simp
  qed
qed

lemma map_of_table_of:
  "length xs \<le> length TAGS \<Longrightarrow> i < length xs \<Longrightarrow>
   map_of (table_of xs) (tag_key (TAGS ! i)) = Some (xs ! i)"
proof (induction xs rule: rev_induct)
  case Nil then show ?case by simp
next
  case (snoc x xs)
  from snoc.prems have lt: "length xs < length TAGS" by simp
  show ?case
  proof (cases "i < length xs")
    case True
    with snoc.IH lt have "map_of (table_of xs) (tag_key (TAGS ! i)) = Some (xs ! i)" by simp
    then show ?thesis using True lt by (simp add: table_of_snoc nth_append)
  next
    case False
    with snoc.prems have i: "i = length xs" by simp
    from fresh_key[OF lt] have "map_of (table_of xs) (tag_key (TAGS ! length xs)) = None"
      by (simp add: map_of_eq_None_iff)
    then show ?thesis using i lt by (simp add: table_of_snoc map_add_def)
  qed
qed

lemma values_table_of: "length xs \<le> length TAGS \<Longrightarrow> map snd (table_of xs) = xs"
  by (simp add: table_of_def map_snd_zip_take min_def)

lemma unmask_retag:
  "length vs + length (filter parses_as_float ws) \<le> length TAGS \<Longrightarrow>
   \<forall>w\<in>set ws. \<not> parses_as_float w \<longrightarrow> w \<notin> fst ` set (table_of (vs @ filter parses_as_float ws)) \<Longrightarrow>
   map (um (table_of (vs @ filter parses_as_float ws))) (retag (length vs) ws) = ws"
proof (induction ws arbitrary: vs)
  case Nil then show ?case by simp
next
  case (Cons w ws)
  show ?case
  proof (cases "parses_as_float w")
    case False
    with Cons.prems have "map_of (table_of (vs @ filter parses_as_float ws)) w = None"
      by (simp add: map_of_eq_None_iff)
    with Cons.IH[of vs] Cons.prems False show ?thesis by (simp add: um_def)
  next
    case True
    let ?xs = "vs @ w # filter parses_as_float ws"
    from Cons.prems(1) True have len: "length ?xs \<le> length TAGS" by simp
    have "map_of (table_of ?xs) (tag_key (TAGS ! length vs)) = Some (?xs ! length vs)"
      by (rule map_of_table_of[OF len]) simp
    then have hd: "um (table_of ?xs) (tag_key (TAGS ! length vs)) = w" by (simp add: um_def)
    have "map (um (table_of ((vs @ [w]) @ filter parses_as_float ws))) (retag (length (vs @ [w])) ws) = ws"
      using Cons.prems True by (intro Cons.IH) simp_all
    with hd True show ?thesis by simp
  qed
qed

lemma nth_TAGS_eq: "n < length TAGS \<Longrightarrow> k < length TAGS \<Longrightarrow> TAGS ! n = TAGS ! k \<longleftrightarrow> n = k"
  using distinct_TAGS by (simp add: nth_eq_iff_index_eq)

lemma count_retag:
  "n + length (filter parses_as_float ws) \<le> length TAGS \<Longrightarrow> k < length TAGS \<Longrightarrow>
   count_list (retag n ws) (tag_key (TAGS ! k)) =
     count_list ws (tag_key (TAGS ! k)) +
     (if n \<le> k \<and> k < n + length (filter parses_as_float ws) then 1 else 0)"
proof (induction ws arbitrary: n)
  case Nil then show ?case by simp
next
  case (Cons w ws)
  show ?case
  proof (cases "parses_as_float w")
    case False
    with Cons.IH[of n] Cons.prems show ?thesis by simp
  next
    case True
    with Cons.prems have n: "n < length TAGS" and le: "Suc n + length (filter parses_as_float ws) \<le> length TAGS"
      by simp_all
    from True have ne: "w \<noteq> tag_key (TAGS ! k)" using tag_key_not_float by auto
    from Cons.IH[OF le Cons.prems(2)] True ne n Cons.prems(2) show ?thesis
      by (auto simp: tag_key_inj nth_TAGS_eq)
  qed
qed

section \<open>The reverse map and the equation loop\<close>

lemma invert_snoc: "invert (d @ [(k, v)]) = AList.update v k (invert d)"
  by (simp add: invert_def)

lemma map_of_invert_snoc:
  "length vs < length TAGS \<Longrightarrow>
   map_of (invert (table_of (vs @ [v]))) = (map_of (invert (table_of vs)))(v \<mapsto> tag_key (TAGS ! length vs))"
  by (simp add: table_of_snoc invert_snoc update_conv')

lemma map_of_invert_last:
  "length vs \<le> length TAGS \<Longrightarrow> k < length vs \<Longrightarrow>
   \<forall>k'. k < k' \<and> k' < length vs \<longrightarrow> vs ! k' \<noteq> vs ! k \<Longrightarrow>
   map_of (invert (table_of vs)) (vs ! k) = Some (tag_key (TAGS ! k))"
proof (induction vs rule: rev_induct)
  case Nil then show ?case by simp
next
  case (snoc v vs)
  from snoc.prems(1) have lt: "length vs < length TAGS" by simp
  show ?case
  proof (cases "k < length vs")
    case False
    with snoc.prems(2) have "k = length vs" by simp
    then show ?thesis using lt by (simp add: map_of_invert_snoc)
  next
    case True
    from snoc.prems(3)[rule_format, of "length vs"] True have ne: "v \<noteq> vs ! k"
      by (simp add: nth_append)
    have "\<forall>k'. k < k' \<and> k' < length vs \<longrightarrow> vs ! k' \<noteq> vs ! k"
    proof (intro allI impI)
      fix k' assume "k < k' \<and> k' < length vs"
      with snoc.prems(3)[rule_format, of k'] show "vs ! k' \<noteq> vs ! k" by (simp add: nth_append)
    qed
    with snoc.IH lt True have "map_of (invert (table_of vs)) (vs ! k) = Some (tag_key (TAGS ! k))"
      by simp
    then show ?thesis using lt True ne by (simp add: map_of_invert_snoc nth_append)
  qed
qed

lemma map_of_invert_none:
  "length vs \<le> length TAGS \<Longrightarrow> w \<notin> set vs \<Longrightarrow> map_of (invert (table_of vs)) w = None"
proof (induction vs rule: rev_induct)
  case Nil then show ?case by (simp add: invert_def table_of_def)
next
  case (snoc v vs) then show ?case by (simp add: map_of_invert_snoc)
qed

lemma map_of_invert_some:
  "length vs \<le> length TAGS \<Longrightarrow> map_of (invert (table_of vs)) w = Some t \<Longrightarrow>
   \<exists>k<length vs. t = tag_key (TAGS ! k) \<and> vs ! k = w"
proof (induction vs rule: rev_induct)
  case Nil then show ?case by (simp add: invert_def table_of_def)
next
  case (snoc v vs)
  from snoc.prems(1) have lt: "length vs < length TAGS" by simp
  show ?case
  proof (cases "w = v")
    case True
    with snoc.prems(2) lt have "t = tag_key (TAGS ! length vs)" by (simp add: map_of_invert_snoc)
    with True show ?thesis by (intro exI[of _ "length vs"]) simp
  next
    case False
    with snoc.prems(2) lt have "map_of (invert (table_of vs)) w = Some t" by (simp add: map_of_invert_snoc)
    with snoc.IH lt obtain k where "k < length vs" "t = tag_key (TAGS ! k)" "vs ! k = w" by auto
    then show ?thesis by (intro exI[of _ k]) (simp add: nth_append)
  qed
qed

lemma length_tag_equation: "length (tag_equation es a) = length es"
  by (induction es arbitrary: a) (simp_all split: option.splits)

lemma tag_equation_nth:
  "j < length es \<Longrightarrow>
   tag_equation es a ! j =
     (if es ! j \<in> set (take j es) then es ! j
      else case map_of a (es ! j) of Some t \<Rightarrow> t | None \<Rightarrow> es ! j)"
proof (induction es arbitrary: a j)
  case Nil then show ?case by simp
next
  case (Cons w es)
  show ?case
  proof (cases j)
    case 0 then show ?thesis by (simp split: option.splits)
  next
    case (Suc i)
    with Cons.prems have i: "i < length es" by simp
    show ?thesis
    proof (cases "map_of a w")
      case None
      with Cons.IH[OF i, of a] Suc show ?thesis by (auto split: option.splits)
    next
      case (Some t)
      with Cons.IH[OF i, of "AList.delete w a"] Suc show ?thesis
        by (auto simp: delete_conv' split: option.splits)
    qed
  qed
qed

section \<open>The constructed instance\<close>

lemma init_Inr:
  "NumberTag_init s e = Inr nt \<Longrightarrow>
   nt = built s e \<and> length (numeric_words (normalize_numbers s)) \<le> length TAGS"
  by (simp add: init_char split: if_splits)

lemma built_simps:
  "original_sentence (built s e) = normalize_numbers s"
  "original_equation (built s e) = normalize_numbers e"
  "tagged_sentence (built s e) = join (retag 0 (split (normalize_numbers s)))"
  "tagged_equation (built s e) = join (tag_equation (split (normalize_numbers e))
        (invert (table_of (numeric_words (normalize_numbers s)))))"
  "lookup_table (built s e) = table_of (numeric_words (normalize_numbers s))"
  by (simp_all add: built_def)

lemma split_join_retag:
  assumes "length (numeric_words s) \<le> length TAGS"
  shows "split (join (retag 0 (split s))) = retag 0 (split s)"
proof (rule split_join)
  have "\<forall>w\<in>set (split s). good_word w" by (auto dest: split_good)
  with assms show "\<forall>w\<in>set (retag 0 (split s)). good_word w"
    by (intro retag_good) (simp_all add: numeric_words_def)
qed

lemma tag_equation_good:
  assumes "length vs \<le> length TAGS" and "\<forall>w\<in>set es. good_word w"
  shows "\<forall>w\<in>set (tag_equation es (invert (table_of vs))). good_word w"
proof
  fix w assume "w \<in> set (tag_equation es (invert (table_of vs)))"
  then obtain j where j: "j < length es" and w: "w = tag_equation es (invert (table_of vs)) ! j"
    by (auto simp: in_set_conv_nth length_tag_equation)
  show "good_word w"
  proof (cases "w = es ! j")
    case True with assms(2) j show ?thesis by simp
  next
    case False
    with w tag_equation_nth[OF j, of "invert (table_of vs)"]
    have "map_of (invert (table_of vs)) (es ! j) = Some w"
      by (auto split: if_splits option.splits)
    from map_of_invert_some[OF assms(1) this] obtain k where "k < length vs" "w = tag_key (TAGS ! k)"
      by blast
    with assms(1) show ?thesis by (simp add: good_tag_key)
  qed
qed

lemma split_join_tag_equation:
  assumes "length vs \<le> length TAGS"
  shows "split (join (tag_equation (split e) (invert (table_of vs)))) =
         tag_equation (split e) (invert (table_of vs))"
proof (rule split_join)
  have "\<forall>w\<in>set (split e). good_word w" by (auto dest: split_good)
  with assms show "\<forall>w\<in>set (tag_equation (split e) (invert (table_of vs))). good_word w"
    by (rule tag_equation_good)
qed

lemma retag_nth_num:
  "i < length ws \<Longrightarrow> parses_as_float (ws ! i) \<Longrightarrow>
   retag n ws ! i = tag_key (TAGS ! (n + length (filter parses_as_float (take i ws))))"
proof (induction ws arbitrary: n i)
  case Nil then show ?case by simp
next
  case (Cons w ws) then show ?case by (cases i) simp_all
qed

lemma last_index:
  "w \<in> set vs \<Longrightarrow> \<exists>k<length vs. vs ! k = w \<and> (\<forall>k'. k < k' \<and> k' < length vs \<longrightarrow> vs ! k' \<noteq> vs ! k)"
proof (induction vs rule: rev_induct)
  case Nil then show ?case by simp
next
  case (snoc v vs)
  show ?case
  proof (cases "w = v")
    case True
    then show ?thesis by (intro exI[of _ "length vs"]) auto
  next
    case False
    with snoc obtain k where k: "k < length vs" "vs ! k = w"
      "\<forall>k'. k < k' \<and> k' < length vs \<longrightarrow> vs ! k' \<noteq> vs ! k" by auto
    have "\<forall>k'. k < k' \<and> k' < length (vs @ [v]) \<longrightarrow> (vs @ [v]) ! k' \<noteq> (vs @ [v]) ! k"
    proof (intro allI impI)
      fix k' assume a: "k < k' \<and> k' < length (vs @ [v])"
      show "(vs @ [v]) ! k' \<noteq> (vs @ [v]) ! k"
      proof (cases "k' < length vs")
        case True with k a show ?thesis by (simp add: nth_append)
      next
        case False
        with a have "k' = length vs" by simp
        with k \<open>w \<noteq> v\<close> show ?thesis by (simp add: nth_append)
      qed
    qed
    with k show ?thesis by (intro exI[of _ k]) (simp add: nth_append)
  qed
qed

lemma map_of_invert_some_last:
  assumes "length vs \<le> length TAGS" and "map_of (invert (table_of vs)) w = Some t"
  shows "\<exists>k<length vs. t = tag_key (TAGS ! k) \<and> vs ! k = w \<and>
           (\<forall>k'. k < k' \<and> k' < length vs \<longrightarrow> vs ! k' \<noteq> w)"
proof -
  have "w \<in> set vs" using map_of_invert_none[OF assms(1), of w] assms(2) by auto
  from last_index[OF this] obtain k where k: "k < length vs" "vs ! k = w"
    "\<forall>k'. k < k' \<and> k' < length vs \<longrightarrow> vs ! k' \<noteq> vs ! k" by blast
  from map_of_invert_last[OF assms(1) k(1) k(3)] k(2) assms(2) have "t = tag_key (TAGS ! k)" by simp
  with k show ?thesis by blast
qed

lemma sp_ndec: "isspace c \<Longrightarrow> \<not> isdecimal c" by (auto simp add: isspace_def isdecimal_def)
lemma dot_nspace: "\<not> isspace CHR ''.''" by (simp add: isspace_def)

lemma filter_isspace_digits: "\<forall>c\<in>set d. isdecimal c \<Longrightarrow> filter isspace d = []"
  by (induction d) (auto dest: sp_ndec)

lemma filter_isspace_normalize: "filter isspace (normalize_numbers s) = filter isspace s"
proof (induction s rule: normalize_cases)
  case Nil show ?case by simp
next
  case (match s g m)
  note sh = match_group_shape[OF match(1)]
  have "filter isspace (repl g) = []"
    using filter_isspace_digits[OF sh(2)] by (simp add: repl_def dot_nspace)
  moreover have "filter isspace s = filter isspace (dropWhile isdecimal s)"
  proof -
    have "\<forall>c\<in>set (takeWhile isdecimal s). isdecimal c" by (auto dest: set_takeWhileD)
    from filter_isspace_digits[OF this]
    have "filter isspace (takeWhile isdecimal s @ dropWhile isdecimal s) =
          filter isspace (dropWhile isdecimal s)" unfolding filter_append by simp
    then show ?thesis by simp
  qed
  ultimately show ?case using match by (simp add: normalize_dot_match dot_nspace)
next
  case (nomatch s) then show ?case by (simp add: normalize_dot_nomatch)
next
  case (other c s) then show ?case by (simp add: normalize_other)
qed

lemma numeric_word_props:
  "w \<in> set (numeric_words s) \<Longrightarrow> parses_as_float w \<and> good_word w \<and> w \<in> set (split s)"
  by (auto simp: numeric_words_def dest: split_good)

lemma keys_lookup:
  assumes "length vs \<le> length TAGS"
  shows "t \<in> fst ` set (table_of vs) \<longleftrightarrow> (\<exists>k<length vs. t = tag_key (TAGS ! k))"
proof -
  have "fst ` set (table_of vs) = set (map tag_key (take (length vs) TAGS))"
    using keys_table_of[OF assms] by (metis set_map)
  moreover have "t \<in> set (map tag_key (take (length vs) TAGS)) \<longleftrightarrow> (\<exists>k<length vs. t = tag_key (TAGS ! k))"
  proof
    assume "t \<in> set (map tag_key (take (length vs) TAGS))"
    then obtain k where "k < length (map tag_key (take (length vs) TAGS))"
      "map tag_key (take (length vs) TAGS) ! k = t" unfolding in_set_conv_nth by blast
    with assms have "k < length vs" "t = tag_key (TAGS ! k)" by simp_all
    then show "\<exists>k<length vs. t = tag_key (TAGS ! k)" by blast
  next
    assume "\<exists>k<length vs. t = tag_key (TAGS ! k)"
    then obtain k where k: "k < length vs" "t = tag_key (TAGS ! k)" by blast
    with assms have "k < length (map tag_key (take (length vs) TAGS))"
      "map tag_key (take (length vs) TAGS) ! k = t" by simp_all
    then show "t \<in> set (map tag_key (take (length vs) TAGS))" unfolding in_set_conv_nth by blast
  qed
  ultimately show ?thesis by simp
qed

lemma unmask_word_um: "unmask_word nt = um (lookup_table nt)"
  by (rule ext) (simp add: unmask_word_def um_def)

lemma tag_equation_id: "\<forall>w\<in>set es. map_of a w = None \<Longrightarrow> tag_equation es a = es"
  by (induction es) simp_all

lemma unmask_words_good:
  assumes "length (numeric_words s) \<le> length TAGS"
  shows "\<forall>w\<in>set (map (um (table_of (numeric_words s))) (split text)). good_word w"
proof
  fix w assume "w \<in> set (map (um (table_of (numeric_words s))) (split text))"
  then obtain u where u: "u \<in> set (split text)" and w: "w = um (table_of (numeric_words s)) u" by auto
  show "good_word w"
  proof (cases "map_of (table_of (numeric_words s)) u")
    case None
    with w u show ?thesis by (simp add: um_def split_good)
  next
    case (Some v)
    then have "(u, v) \<in> set (table_of (numeric_words s))" by (rule map_of_SomeD)
    then have "v \<in> set (map snd (table_of (numeric_words s)))" by force
    then have "v \<in> set (numeric_words s)" unfolding values_table_of[OF assms] .
    with Some w show ?thesis by (simp add: um_def numeric_word_props)
  qed
qed

lemma count_one_last:
  assumes "count_list xs (xs ! k) = 1" and "k < k'" and "k' < length xs"
  shows "xs ! k' \<noteq> xs ! k"
proof
  assume eq: "xs ! k' = xs ! k"
  have xs: "xs = take k' xs @ xs ! k' # drop (Suc k') xs"
    using assms(3) by (rule id_take_nth_drop)
  have "xs ! k \<in> set (take k' xs)"
    using assms(2,3) by (auto simp: in_set_conv_nth intro!: exI[of _ k])
  then have "0 < count_list (take k' xs) (xs ! k)"
    using count_list_0_iff[of "take k' xs" "xs ! k"] by auto
  moreover have "count_list xs (xs ! k) =
      count_list (take k' xs) (xs ! k) + count_list (xs ! k' # drop (Suc k') xs) (xs ! k)"
    by (subst xs) (simp only: count_list_append)
  ultimately show False using assms(1) eq by simp
qed

lemma retag_eq_map:
  "retag 0 ws =
     map (\<lambda>i. if parses_as_float (ws ! i)
              then tag_key (TAGS ! length (filter parses_as_float (take i ws))) else ws ! i)
         [0..<length ws]"
proof (rule nth_equalityI)
  show "length (retag 0 ws) = length (map (\<lambda>i. if parses_as_float (ws ! i)
              then tag_key (TAGS ! length (filter parses_as_float (take i ws))) else ws ! i)
         [0..<length ws])" by (simp add: length_retag)
next
  fix i assume "i < length (retag 0 ws)"
  then have i: "i < length ws" by (simp add: length_retag)
  show "retag 0 ws ! i = map (\<lambda>i. if parses_as_float (ws ! i)
              then tag_key (TAGS ! length (filter parses_as_float (take i ws))) else ws ! i)
         [0..<length ws] ! i"
  proof (cases "parses_as_float (ws ! i)")
    case True
    with retag_nth_num[OF i True, of 0] i show ?thesis by simp
  next
    case False
    with retag_nth_other[OF i False, of 0] i show ?thesis by simp
  qed
qed

lemma tag_equation_eq_map:
  "tag_equation es a =
     map (\<lambda>j. if es ! j \<in> set (take j es) then es ! j
              else case map_of a (es ! j) of Some t \<Rightarrow> t | None \<Rightarrow> es ! j)
         [0..<length es]"
proof (rule nth_equalityI)
  show "length (tag_equation es a) = length (map (\<lambda>j. if es ! j \<in> set (take j es) then es ! j
              else case map_of a (es ! j) of Some t \<Rightarrow> t | None \<Rightarrow> es ! j)
         [0..<length es])" by (simp add: length_tag_equation)
next
  fix j assume "j < length (tag_equation es a)"
  then have j: "j < length es" by (simp add: length_tag_equation)
  from tag_equation_nth[OF j, of a] j
  show "tag_equation es a ! j = map (\<lambda>j. if es ! j \<in> set (take j es) then es ! j
              else case map_of a (es ! j) of Some t \<Rightarrow> t | None \<Rightarrow> es ! j)
         [0..<length es] ! j" by (simp split: option.splits)
qed

lemma um_no_keys: "set ws \<inter> fst ` set d = {} \<Longrightarrow> map (um d) ws = ws"
proof (rule map_idI)
  fix w assume a: "set ws \<inter> fst ` set d = {}" "w \<in> set ws"
  then have "w \<notin> fst ` set d" by blast
  then have "map_of d w = None" by (simp add: map_of_eq_None_iff)
  then show "um d w = w" by (simp add: um_def)
qed

lemma um_lambda: "um d = (\<lambda>w. case map_of d w of Some v \<Rightarrow> v | None \<Rightarrow> w)"
  by (rule ext) (simp add: um_def)

section \<open>The claims\<close>

text \<open>
  C1, counterexample. The round trip fails on a sentence with a double space, where the
  unmasked text has a single one, and on a sentence with a word that is itself a tag, which
  unmasking rewrites although it was never a number. Both sentences hold one numeric word.
\<close>

theorem roundtrip_counterexample:
  "length (numeric_words (normalize_numbers ''2  apples'')) \<le> length TAGS \<and>
   NumberTag_init ''2  apples'' ''x = 2'' =
     Inr \<lparr>original_sentence = ''2  apples'', original_equation = ''x = 2'',
          tagged_sentence = ''<x> apples'', tagged_equation = ''x = <x>'',
          lookup_table = [(''<x>'', ''2'')]\<rparr> \<and>
   unmask_sentence \<lparr>original_sentence = ''2  apples'', original_equation = ''x = 2'',
          tagged_sentence = ''<x> apples'', tagged_equation = ''x = <x>'',
          lookup_table = [(''<x>'', ''2'')]\<rparr> ''<x> apples'' = ''2 apples'' \<and>
   ''2 apples'' \<noteq> ''2  apples'' \<and>
   length (numeric_words (normalize_numbers ''<x> is 4'')) \<le> length TAGS \<and>
   NumberTag_init ''<x> is 4'' ''x = 4'' =
     Inr \<lparr>original_sentence = ''<x> is 4'', original_equation = ''x = 4'',
          tagged_sentence = ''<x> is <x>'', tagged_equation = ''x = <x>'',
          lookup_table = [(''<x>'', ''4'')]\<rparr> \<and>
   unmask_sentence \<lparr>original_sentence = ''<x> is 4'', original_equation = ''x = 4'',
          tagged_sentence = ''<x> is <x>'', tagged_equation = ''x = <x>'',
          lookup_table = [(''<x>'', ''4'')]\<rparr> ''<x> is <x>'' = ''4 is 4'' \<and>
   ''4 is 4'' \<noteq> ''<x> is 4''"
  by code_simp

text \<open>
  C1, as the code has it. When construction succeeds and no non-numeric word of the normalized
  sentence is a key of the lookup table, unmasking the tagged sentence gives the words of the
  normalized sentence joined by single spaces; this is the normalized sentence itself when
  that one is already the single-space join of its words.
\<close>

theorem unmask_masked_roundtrip:
  assumes "NumberTag_init sentence equation = Inr nt"
    and "\<forall>w\<in>set (split (fst (get_originals nt))).
           \<not> parses_as_float w \<longrightarrow> w \<notin> fst ` set (lookup_table nt)"
  shows "unmask_sentence nt (fst (get_masked nt)) = join (split (fst (get_originals nt))) \<and>
         (join (split (fst (get_originals nt))) = fst (get_originals nt) \<longrightarrow>
            unmask_sentence nt (fst (get_masked nt)) = fst (get_originals nt))"
proof -
  from init_Inr[OF assms(1)] have nt: "nt = built sentence equation"
    and len: "length (numeric_words (normalize_numbers sentence)) \<le> length TAGS" by simp_all
  let ?ws = "split (normalize_numbers sentence)"
  have a: "length ([]::string list) + length (filter parses_as_float ?ws) \<le> length TAGS"
    using len by (simp add: numeric_words_def)
  have b: "\<forall>w\<in>set ?ws. \<not> parses_as_float w \<longrightarrow>
      w \<notin> fst ` set (table_of ([] @ filter parses_as_float ?ws))"
    using assms(2) unfolding nt by (simp add: get_originals_def built_simps numeric_words_def)
  from unmask_retag[OF a b]
  have "map (um (table_of (numeric_words (normalize_numbers sentence)))) (retag 0 ?ws) = ?ws"
    by (simp add: numeric_words_def)
  then have "unmask_sentence nt (fst (get_masked nt)) = join (split (fst (get_originals nt)))"
    unfolding nt unmask_sentence_def unmask_word_um get_masked_def get_originals_def fst_conv
      built_simps split_join_retag[OF len] by simp
  then show ?thesis by simp
qed

text \<open>
  C1, witness: the example of the class docstring.
\<close>

theorem unmask_masked_roundtrip_witness:
  "NumberTag_init ''What is 123.0 added to 1.5 ?'' ''x = 123.0 + 1.5'' =
     Inr \<lparr>original_sentence = ''What is 123 added to 1.5 ?'', original_equation = ''x = 123 + 1.5'',
          tagged_sentence = ''What is <x> added to <y> ?'', tagged_equation = ''x = <x> + <y>'',
          lookup_table = [(''<x>'', ''123''), (''<y>'', ''1.5'')]\<rparr> \<and>
   unmask_sentence \<lparr>original_sentence = ''What is 123 added to 1.5 ?'', original_equation = ''x = 123 + 1.5'',
          tagged_sentence = ''What is <x> added to <y> ?'', tagged_equation = ''x = <x> + <y>'',
          lookup_table = [(''<x>'', ''123''), (''<y>'', ''1.5'')]\<rparr> ''What is <x> added to <y> ?'' =
     ''What is 123 added to 1.5 ?''"
proof -
  let ?R = "\<lparr>original_sentence = ''What is 123 added to 1.5 ?'', original_equation = ''x = 123 + 1.5'',
          tagged_sentence = ''What is <x> added to <y> ?'', tagged_equation = ''x = <x> + <y>'',
          lookup_table = [(''<x>'', ''123''), (''<y>'', ''1.5'')]\<rparr>"
  have h: "NumberTag_init ''What is 123.0 added to 1.5 ?'' ''x = 123.0 + 1.5'' = Inr ?R"
    by code_simp
  have c: "\<forall>w\<in>set (split (fst (get_originals ?R))).
           \<not> parses_as_float w \<longrightarrow> w \<notin> fst ` set (lookup_table ?R)"
    by code_simp
  have j: "join (split (fst (get_originals ?R))) = fst (get_originals ?R)" by code_simp
  from unmask_masked_roundtrip[OF h c, THEN conjunct2, rule_format, OF j]
  have "unmask_sentence ?R ''What is <x> added to <y> ?'' = ''What is 123 added to 1.5 ?''"
    by (simp add: get_masked_def get_originals_def)
  with h show ?thesis by (rule conjI)
qed

text \<open>
  C2, counterexample. Nine occurrences of one numeric word: a single distinct numeric word,
  well within the alphabet, and construction raises all the same.
\<close>

theorem exhaustion_counterexample:
  "card (set (numeric_words (normalize_numbers ''2 2 2 2 2 2 2 2 2''))) \<le> length TAGS \<and>
   NumberTag_init ''2 2 2 2 2 2 2 2 2'' ''x = 2'' = Inl IndexError"
  by code_simp

text \<open>
  C2, as the code has it. Construction raises \<open>IndexError\<close> whenever the sentence holds more
  distinct numeric words than the alphabet has symbols, and more generally whenever it holds
  more numeric word occurrences than that; it succeeds when the number of occurrences is within
  the alphabet size.
\<close>

theorem exhaustion_by_occurrences:
  "(length TAGS < card (set (numeric_words (normalize_numbers sentence))) \<longrightarrow>
      NumberTag_init sentence equation = Inl IndexError) \<and>
   (length TAGS < length (numeric_words (normalize_numbers sentence)) \<longrightarrow>
      NumberTag_init sentence equation = Inl IndexError) \<and>
   (length (numeric_words (normalize_numbers sentence)) \<le> length TAGS \<longrightarrow>
      (\<exists>nt. NumberTag_init sentence equation = Inr nt))"
proof -
  have "card (set (numeric_words (normalize_numbers sentence))) \<le>
        length (numeric_words (normalize_numbers sentence))" by (rule card_length)
  then show ?thesis by (auto simp: init_char)
qed

text \<open>
  C2, witness: nine distinct numbers raise, eight do not.
\<close>

theorem exhaustion_by_occurrences_witness:
  "NumberTag_init ''1 2 3 4 5 6 7 8 9'' ''x = 1'' = Inl IndexError \<and>
   (\<exists>nt. NumberTag_init ''1 2 3 4 5 6 7 8'' ''x = 1'' = Inr nt)"
proof -
  have a: "length TAGS < card (set (numeric_words (normalize_numbers ''1 2 3 4 5 6 7 8 9'')))"
    by code_simp
  have b: "length (numeric_words (normalize_numbers ''1 2 3 4 5 6 7 8'')) \<le> length TAGS"
    by code_simp
  from exhaustion_by_occurrences[of "''1 2 3 4 5 6 7 8 9''" "''x = 1''", THEN conjunct1, rule_format, OF a]
    exhaustion_by_occurrences[of "''1 2 3 4 5 6 7 8''" "''x = 1''", THEN conjunct2, THEN conjunct2, rule_format, OF b]
  show ?thesis by (rule conjI)
qed

text \<open>
  C3. After a successful construction the tagged equation has one word for each word of the
  normalized equation. If a numeric word occurs once among the numeric words of the sentence,
  the first equation word equal to it is replaced by the tag of that number. An equation word
  that already occurred earlier in the equation (its entry of the reverse map is consumed), or
  that is no numeric word of the sentence, is left as it is.
\<close>

theorem equation_consumption:
  assumes "NumberTag_init sentence equation = Inr nt"
  shows "let nums = numeric_words (original_sentence nt);
             es = split (original_equation nt);
             out = split (tagged_equation nt)
         in length out = length es \<and>
            (\<forall>k<length nums. \<forall>j<length es.
               count_list nums (nums ! k) = 1 \<and> es ! j = nums ! k \<and> es ! j \<notin> set (take j es) \<longrightarrow>
               out ! j = tag_key (TAGS ! k)) \<and>
            (\<forall>j<length es. es ! j \<in> set (take j es) \<or> es ! j \<notin> set nums \<longrightarrow> out ! j = es ! j)"
proof -
  from init_Inr[OF assms] have nt: "nt = built sentence equation"
    and len: "length (numeric_words (normalize_numbers sentence)) \<le> length TAGS" by simp_all
  let ?nums = "numeric_words (normalize_numbers sentence)"
  let ?es = "split (normalize_numbers equation)"
  let ?a = "invert (table_of ?nums)"
  have te: "split (tagged_equation nt) = tag_equation ?es ?a"
    unfolding nt built_simps by (rule split_join_tag_equation[OF len])
  have 1: "length (tag_equation ?es ?a) = length ?es" by (rule length_tag_equation)
  have 2: "tag_equation ?es ?a ! j = tag_key (TAGS ! k)"
    if "k < length ?nums" "j < length ?es" "count_list ?nums (?nums ! k) = 1"
      "?es ! j = ?nums ! k" "?es ! j \<notin> set (take j ?es)" for k j
  proof -
    have "\<forall>k'. k < k' \<and> k' < length ?nums \<longrightarrow> ?nums ! k' \<noteq> ?nums ! k"
      using count_one_last[OF that(3)] by blast
    from map_of_invert_last[OF len that(1) this]
    have "map_of ?a (?es ! j) = Some (tag_key (TAGS ! k))" using that(4) by simp
    with tag_equation_nth[OF that(2), of ?a] that(5) show ?thesis by simp
  qed
  have 3: "tag_equation ?es ?a ! j = ?es ! j"
    if "j < length ?es" "?es ! j \<in> set (take j ?es) \<or> ?es ! j \<notin> set ?nums" for j
  proof (cases "?es ! j \<in> set (take j ?es)")
    case True
    with tag_equation_nth[OF that(1), of ?a] show ?thesis by simp
  next
    case False
    with that(2) have "map_of ?a (?es ! j) = None" using map_of_invert_none[OF len] by blast
    with tag_equation_nth[OF that(1), of ?a] show ?thesis by simp
  qed
  have o: "original_sentence nt = normalize_numbers sentence"
    "original_equation nt = normalize_numbers equation" by (simp_all add: nt built_simps)
  show ?thesis unfolding Let_def te o
  proof (intro conjI allI impI)
    show "length (tag_equation ?es ?a) = length ?es" by (rule 1)
  next
    fix k j assume "k < length ?nums" "j < length ?es"
      "count_list ?nums (?nums ! k) = 1 \<and> ?es ! j = ?nums ! k \<and> ?es ! j \<notin> set (take j ?es)"
    then show "tag_equation ?es ?a ! j = tag_key (TAGS ! k)" using 2[of k j] by blast
  next
    fix j assume "j < length ?es" "?es ! j \<in> set (take j ?es) \<or> ?es ! j \<notin> set ?nums"
    then show "tag_equation ?es ?a ! j = ?es ! j" by (rule 3)
  qed
qed

text \<open>
  C3, witness: \<open>4\<close> occurs once in the sentence and twice in the equation; \<open>9\<close> is not in
  the sentence.
\<close>

theorem equation_consumption_witness:
  "NumberTag_init ''4 plus 6'' ''x = 4 + 4 + 9'' =
     Inr \<lparr>original_sentence = ''4 plus 6'', original_equation = ''x = 4 + 4 + 9'',
          tagged_sentence = ''<x> plus <y>'', tagged_equation = ''x = <x> + 4 + 9'',
          lookup_table = [(''<x>'', ''4''), (''<y>'', ''6'')]\<rparr> \<and>
   split ''x = <x> + 4 + 9'' ! 2 = tag_key (TAGS ! 0) \<and>
   split ''x = <x> + 4 + 9'' ! 4 = split ''x = 4 + 4 + 9'' ! 4 \<and>
   split ''x = <x> + 4 + 9'' ! 6 = split ''x = 4 + 4 + 9'' ! 6"
proof -
  let ?R = "\<lparr>original_sentence = ''4 plus 6'', original_equation = ''x = 4 + 4 + 9'',
          tagged_sentence = ''<x> plus <y>'', tagged_equation = ''x = <x> + 4 + 9'',
          lookup_table = [(''<x>'', ''4''), (''<y>'', ''6'')]\<rparr>"
  let ?nums = "numeric_words (original_sentence ?R)"
  let ?es = "split (original_equation ?R)"
  have h: "NumberTag_init ''4 plus 6'' ''x = 4 + 4 + 9'' = Inr ?R" by code_simp
  note c = equation_consumption[OF h, unfolded Let_def]
  have k: "0 < length ?nums" by code_simp
  have j2: "2 < length ?es" and j4: "4 < length ?es" and j6: "6 < length ?es" by code_simp+
  have p: "count_list ?nums (?nums ! 0) = 1 \<and> ?es ! 2 = ?nums ! 0 \<and> ?es ! 2 \<notin> set (take 2 ?es)"
    by code_simp
  have q4: "?es ! 4 \<in> set (take 4 ?es) \<or> ?es ! 4 \<notin> set ?nums" by code_simp
  have q6: "?es ! 6 \<in> set (take 6 ?es) \<or> ?es ! 6 \<notin> set ?nums" by code_simp
  note a = c[THEN conjunct2, THEN conjunct1, rule_format, OF k j2 p]
    and b4 = c[THEN conjunct2, THEN conjunct2, rule_format, OF j4 q4]
    and b6 = c[THEN conjunct2, THEN conjunct2, rule_format, OF j6 q6]
  have s: "tagged_equation ?R = ''x = <x> + 4 + 9''" "original_equation ?R = ''x = 4 + 4 + 9''"
    by simp_all
  from a b4 b6 show ?thesis unfolding s using h by (intro conjI)
qed

text \<open>
  C4, counterexample. The sentence holds the literal word \<open><x>\<close> and one number: the tag
  \<open><x>\<close> is a key of the lookup table and occurs twice in the tagged sentence.
\<close>

theorem tag_twice_counterexample:
  "NumberTag_init ''<x> 1'' ''x = 1'' =
     Inr \<lparr>original_sentence = ''<x> 1'', original_equation = ''x = 1'',
          tagged_sentence = ''<x> <x>'', tagged_equation = ''x = <x>'',
          lookup_table = [(''<x>'', ''1'')]\<rparr> \<and>
   count_list (split ''<x> <x>'') ''<x>'' = 2"
  by code_simp

text \<open>
  C4, as the code has it. Each key of the lookup table occurs in the tagged sentence once more
  often than it occurs as a word of the normalized sentence; so exactly once when the
  normalized sentence does not hold it as a word.
\<close>

theorem tag_occurrences_in_tagged_sentence:
  assumes "NumberTag_init sentence equation = Inr nt"
    and "t \<in> fst ` set (lookup_table nt)"
  shows "count_list (split (tagged_sentence nt)) t =
           1 + count_list (split (original_sentence nt)) t \<and>
         (t \<notin> set (split (original_sentence nt)) \<longrightarrow>
            count_list (split (tagged_sentence nt)) t = 1)"
proof -
  from init_Inr[OF assms(1)] have nt: "nt = built sentence equation"
    and len: "length (numeric_words (normalize_numbers sentence)) \<le> length TAGS" by simp_all
  from assms(2) keys_lookup[OF len, of t] obtain k
    where k: "k < length (numeric_words (normalize_numbers sentence))" "t = tag_key (TAGS ! k)"
    unfolding nt built_simps by blast
  from len have le: "0 + length (filter parses_as_float (split (normalize_numbers sentence))) \<le> length TAGS"
    by (simp add: numeric_words_def)
  from k len have kl: "k < length TAGS" by simp
  have "count_list (split (tagged_sentence nt)) t =
           1 + count_list (split (original_sentence nt)) t"
    unfolding nt built_simps split_join_retag[OF len] k(2) count_retag[OF le kl]
    using k(1) by (simp add: numeric_words_def)
  then show ?thesis by (simp add: count_list_0_iff)
qed

text \<open>
  C4, witness: the example of the class docstring and its second tag.
\<close>

theorem tag_occurrences_in_tagged_sentence_witness:
  "NumberTag_init ''What is 123.0 added to 1.5 ?'' ''x = 123.0 + 1.5'' =
     Inr \<lparr>original_sentence = ''What is 123 added to 1.5 ?'', original_equation = ''x = 123 + 1.5'',
          tagged_sentence = ''What is <x> added to <y> ?'', tagged_equation = ''x = <x> + <y>'',
          lookup_table = [(''<x>'', ''123''), (''<y>'', ''1.5'')]\<rparr> \<and>
   count_list (split ''What is <x> added to <y> ?'') ''<y>'' = 1"
proof -
  have h: "NumberTag_init ''What is 123.0 added to 1.5 ?'' ''x = 123.0 + 1.5'' =
     Inr \<lparr>original_sentence = ''What is 123 added to 1.5 ?'', original_equation = ''x = 123 + 1.5'',
          tagged_sentence = ''What is <x> added to <y> ?'', tagged_equation = ''x = <x> + <y>'',
          lookup_table = [(''<x>'', ''123''), (''<y>'', ''1.5'')]\<rparr>"
    by code_simp
  have m: "''<y>'' \<in> fst ` set (lookup_table \<lparr>original_sentence = ''What is 123 added to 1.5 ?'',
          original_equation = ''x = 123 + 1.5'',
          tagged_sentence = ''What is <x> added to <y> ?'', tagged_equation = ''x = <x> + <y>'',
          lookup_table = [(''<x>'', ''123''), (''<y>'', ''1.5'')]\<rparr>)"
    by simp
  have n: "''<y>'' \<notin> set (split ''What is 123 added to 1.5 ?'')" by code_simp
  from tag_occurrences_in_tagged_sentence[OF h m, THEN conjunct2] n
  have "count_list (split ''What is <x> added to <y> ?'') ''<y>'' = 1" by simp
  with h show ?thesis by (rule conjI)
qed

text \<open>
  C5. Number-format normalization is idempotent: normalizing the result of a normalization
  changes nothing, for every string.
\<close>

theorem normalize_numbers_idempotent: "normalize_numbers (normalize_numbers s) = normalize_numbers s"
proof (induction s rule: normalize_cases)
  case Nil show ?case by simp
next
  case (match s g m)
  let ?r = "dropWhile isdecimal s"
  note sh = match_group_shape[OF match(1)]
  show ?case
  proof (cases "g = []")
    case True
    with match show ?thesis by (simp add: normalize_dot_match repl_def)
  next
    case False
    from open_end_takeWhile[OF open_end_normalize[OF sh(4)] sh(2)]
    have "takeWhile isdecimal (g @ normalize_numbers ?r) = g" by simp
    with sh(3) False have nm: "\<not> matchable (g @ normalize_numbers ?r)"
      by (simp add: matchable_def)
    have "normalize_numbers (CHR ''.'' # s) = CHR ''.'' # g @ normalize_numbers ?r"
      using match(1) False by (simp add: normalize_dot_match repl_def)
    moreover have "normalize_numbers (CHR ''.'' # g @ normalize_numbers ?r)
        = CHR ''.'' # g @ normalize_numbers ?r"
      using normalize_dot_nomatch[OF nm] normalize_digits[OF sh(2)] match(2) by simp
    ultimately show ?thesis by simp
  qed
next
  case (nomatch s)
  from normalize_dot_nomatch[OF not_matchable_normalize[OF nomatch(1)]] nomatch
  show ?case by (simp add: normalize_dot_nomatch)
next
  case (other c s)
  then show ?case by (simp add: normalize_other)
qed

text \<open>
  C6. After a successful construction the keys of the lookup table are distinct; they are the
  first tags of the alphabet, in alphabet order, and their values are the numeric words of the
  normalized sentence from left to right. The numeric word at position \<open>i\<close> of the sentence is
  replaced by the tag whose index is the number of numeric words before it.
\<close>

theorem tags_follow_alphabet_order:
  assumes "NumberTag_init sentence equation = Inr nt"
  shows "distinct (map fst (lookup_table nt)) \<and>
         map fst (lookup_table nt) =
           map tag_key (take (length (numeric_words (original_sentence nt))) TAGS) \<and>
         map snd (lookup_table nt) = numeric_words (original_sentence nt) \<and>
         (\<forall>i<length (split (original_sentence nt)).
            parses_as_float (split (original_sentence nt) ! i) \<longrightarrow>
            split (tagged_sentence nt) ! i =
              tag_key (TAGS ! length (filter parses_as_float (take i (split (original_sentence nt))))))"
proof -
  from init_Inr[OF assms] have nt: "nt = built sentence equation"
    and len: "length (numeric_words (normalize_numbers sentence)) \<le> length TAGS" by simp_all
  have 1: "distinct (map fst (lookup_table nt))"
    unfolding nt built_simps by (rule distinct_keys_table_of[OF len])
  have 2: "map fst (lookup_table nt) =
           map tag_key (take (length (numeric_words (original_sentence nt))) TAGS)"
    unfolding nt built_simps by (rule keys_table_of[OF len])
  have 3: "map snd (lookup_table nt) = numeric_words (original_sentence nt)"
    unfolding nt built_simps by (rule values_table_of[OF len])
  have 4: "split (tagged_sentence nt) ! i =
      tag_key (TAGS ! length (filter parses_as_float (take i (split (original_sentence nt)))))"
    if "i < length (split (original_sentence nt))" "parses_as_float (split (original_sentence nt) ! i)" for i
    using that unfolding nt built_simps split_join_retag[OF len]
    by (simp add: retag_nth_num)
  from 1 2 3 4 show ?thesis by blast
qed

text \<open>
  C6, witness: three numeric words, two of them equal.
\<close>

theorem tags_follow_alphabet_order_witness:
  "NumberTag_init ''add 7 to 7 and 2.50'' ''x = 7 + 7 + 2.5'' =
     Inr \<lparr>original_sentence = ''add 7 to 7 and 2.5'', original_equation = ''x = 7 + 7 + 2.5'',
          tagged_sentence = ''add <x> to <y> and <z>'', tagged_equation = ''x = <y> + 7 + <z>'',
          lookup_table = [(''<x>'', ''7''), (''<y>'', ''7''), (''<z>'', ''2.5'')]\<rparr> \<and>
   distinct [''<x>'', ''<y>'', ''<z>'']"
proof -
  have h: "NumberTag_init ''add 7 to 7 and 2.50'' ''x = 7 + 7 + 2.5'' =
     Inr \<lparr>original_sentence = ''add 7 to 7 and 2.5'', original_equation = ''x = 7 + 7 + 2.5'',
          tagged_sentence = ''add <x> to <y> and <z>'', tagged_equation = ''x = <y> + 7 + <z>'',
          lookup_table = [(''<x>'', ''7''), (''<y>'', ''7''), (''<z>'', ''2.5'')]\<rparr>"
    by code_simp
  from tags_follow_alphabet_order[OF h, THEN conjunct1]
  have "distinct [''<x>'', ''<y>'', ''<z>'']" by simp
  with h show ?thesis by (rule conjI)
qed

text \<open>
  C7. Let the same numeric text stand at positions \<open>k1 < k2\<close> of the numeric words of the
  sentence, \<open>k2\<close> being its last position. Then the reverse map sends that text to the tag of
  \<open>k2\<close>, the first equation word equal to it is replaced by the tag of \<open>k2\<close>, and the tag of
  \<open>k1\<close> is never put into the equation: it stands in the tagged equation only where the
  equation already had it as a word.
\<close>

theorem repeated_value_uses_last_tag:
  assumes "NumberTag_init sentence equation = Inr nt"
  shows "let nums = numeric_words (original_sentence nt);
             es = split (original_equation nt);
             out = split (tagged_equation nt)
         in \<forall>k1 k2. k1 < k2 \<and> k2 < length nums \<and> nums ! k1 = nums ! k2 \<and>
                (\<forall>k. k2 < k \<and> k < length nums \<longrightarrow> nums ! k \<noteq> nums ! k2) \<longrightarrow>
              map_of (invert (lookup_table nt)) (nums ! k2) = Some (tag_key (TAGS ! k2)) \<and>
              (\<forall>j<length es. es ! j = nums ! k2 \<and> es ! j \<notin> set (take j es) \<longrightarrow>
                  out ! j = tag_key (TAGS ! k2)) \<and>
              (\<forall>j<length es. out ! j = tag_key (TAGS ! k1) \<longrightarrow> es ! j = tag_key (TAGS ! k1))"
proof -
  from init_Inr[OF assms] have nt: "nt = built sentence equation"
    and len: "length (numeric_words (normalize_numbers sentence)) \<le> length TAGS" by simp_all
  let ?nums = "numeric_words (normalize_numbers sentence)"
  let ?es = "split (normalize_numbers equation)"
  let ?a = "invert (table_of ?nums)"
  have te: "split (tagged_equation nt) = tag_equation ?es ?a"
    unfolding nt built_simps by (rule split_join_tag_equation[OF len])
  have o: "original_sentence nt = normalize_numbers sentence"
    "original_equation nt = normalize_numbers equation"
    "lookup_table nt = table_of ?nums" by (simp_all add: nt built_simps)
  show ?thesis unfolding Let_def te o
  proof (intro allI impI, elim conjE, intro conjI allI impI)
    fix k1 k2 assume k: "k1 < k2" "k2 < length ?nums" "?nums ! k1 = ?nums ! k2"
      and l: "\<forall>k. k2 < k \<and> k < length ?nums \<longrightarrow> ?nums ! k \<noteq> ?nums ! k2"
    show m: "map_of ?a (?nums ! k2) = Some (tag_key (TAGS ! k2))"
      by (rule map_of_invert_last[OF len k(2) l])
    { fix j assume j: "j < length ?es" and e: "?es ! j = ?nums ! k2 \<and> ?es ! j \<notin> set (take j ?es)"
      from e have e1: "?es ! j = ?nums ! k2" by (rule conjunct1)
      from e have e2: "?es ! j \<notin> set (take j ?es)" by (rule conjunct2)
      from m have "map_of ?a (?es ! j) = Some (tag_key (TAGS ! k2))" unfolding e1 .
      with tag_equation_nth[OF j, of ?a] e2 show "tag_equation ?es ?a ! j = tag_key (TAGS ! k2)"
        by simp }
    { fix j assume j: "j < length ?es" and e: "tag_equation ?es ?a ! j = tag_key (TAGS ! k1)"
      show "?es ! j = tag_key (TAGS ! k1)"
      proof (rule ccontr)
        assume ne: "?es ! j \<noteq> tag_key (TAGS ! k1)"
        with e tag_equation_nth[OF j, of ?a]
        have "map_of ?a (?es ! j) = Some (tag_key (TAGS ! k1))"
          by (auto split: if_splits option.splits)
        from map_of_invert_some_last[OF len this] obtain k where kk: "k < length ?nums"
          "tag_key (TAGS ! k1) = tag_key (TAGS ! k)" "?nums ! k = ?es ! j"
          "\<forall>k'. k < k' \<and> k' < length ?nums \<longrightarrow> ?nums ! k' \<noteq> ?es ! j" by blast
        from kk(1,2) k(1,2) len have "k = k1" by (simp add: tag_key_inj nth_TAGS_eq)
        with kk(3,4) k show False by auto
      qed }
  qed
qed

text \<open>
  C7, witness: the number \<open>5\<close> twice in the sentence and twice in the equation.
\<close>

theorem repeated_value_uses_last_tag_witness:
  "NumberTag_init ''5 and 5'' ''x = 5 * 5'' =
     Inr \<lparr>original_sentence = ''5 and 5'', original_equation = ''x = 5 * 5'',
          tagged_sentence = ''<x> and <y>'', tagged_equation = ''x = <y> * 5'',
          lookup_table = [(''<x>'', ''5''), (''<y>'', ''5'')]\<rparr> \<and>
   map_of (invert [(''<x>'', ''5''), (''<y>'', ''5'')]) (numeric_words ''5 and 5'' ! 1) =
     Some (tag_key (TAGS ! 1)) \<and>
   split ''x = <y> * 5'' ! 2 = tag_key (TAGS ! 1)"
proof -
  let ?R = "\<lparr>original_sentence = ''5 and 5'', original_equation = ''x = 5 * 5'',
          tagged_sentence = ''<x> and <y>'', tagged_equation = ''x = <y> * 5'',
          lookup_table = [(''<x>'', ''5''), (''<y>'', ''5'')]\<rparr>"
  let ?nums = "numeric_words (original_sentence ?R)"
  let ?es = "split (original_equation ?R)"
  have h: "NumberTag_init ''5 and 5'' ''x = 5 * 5'' = Inr ?R" by code_simp
  have len: "length ?nums = 2" by code_simp
  have p: "(0::nat) < 1 \<and> 1 < length ?nums \<and> ?nums ! 0 = ?nums ! 1 \<and>
      (\<forall>k. 1 < k \<and> k < length ?nums \<longrightarrow> ?nums ! k \<noteq> ?nums ! 1)"
  proof (intro conjI allI impI)
    show "(0::nat) < 1" by simp
    show "1 < length ?nums" unfolding len by simp
    show "?nums ! 0 = ?nums ! 1" by code_simp
    fix k assume "1 < k \<and> k < length ?nums"
    then have False unfolding len by arith
    then show "?nums ! k \<noteq> ?nums ! 1" ..
  qed
  note c = repeated_value_uses_last_tag[OF h, unfolded Let_def, rule_format, OF p]
  have j: "2 < length ?es" by code_simp
  have q: "?es ! 2 = ?nums ! 1 \<and> ?es ! 2 \<notin> set (take 2 ?es)" by code_simp
  note a = c[THEN conjunct1] and b = c[THEN conjunct2, THEN conjunct1, rule_format, OF j q]
  have s: "tagged_equation ?R = ''x = <y> * 5''" "original_sentence ?R = ''5 and 5''"
    "lookup_table ?R = [(''<x>'', ''5''), (''<y>'', ''5'')]" by simp_all
  from a b show ?thesis unfolding s using h by (intro conjI)
qed

text \<open>
  C8, counterexample. A sentence with no numeric word and a double space: the tagged sentence
  differs from the normalized one.
\<close>

theorem no_numbers_counterexample:
  "numeric_words (normalize_numbers ''a  b'') = [] \<and>
   NumberTag_init ''a  b'' ''x'' =
     Inr \<lparr>original_sentence = ''a  b'', original_equation = ''x'',
          tagged_sentence = ''a b'', tagged_equation = ''x'', lookup_table = []\<rparr> \<and>
   fst (get_masked \<lparr>original_sentence = ''a  b'', original_equation = ''x'',
          tagged_sentence = ''a b'', tagged_equation = ''x'', lookup_table = []\<rparr>) \<noteq>
   fst (get_originals \<lparr>original_sentence = ''a  b'', original_equation = ''x'',
          tagged_sentence = ''a b'', tagged_equation = ''x'', lookup_table = []\<rparr>)"
  by code_simp

text \<open>
  C8, as the code has it. When the normalized sentence has no numeric word, construction
  succeeds, the lookup table is empty and the tagged sentence is the single-space join of the
  words of the normalized sentence; it equals the normalized sentence when that one is already
  the single-space join of its words.
\<close>

theorem no_numbers_sentence:
  assumes "numeric_words (normalize_numbers sentence) = []"
  shows "\<exists>nt. NumberTag_init sentence equation = Inr nt \<and> lookup_table nt = [] \<and>
           fst (get_masked nt) = join (split (fst (get_originals nt))) \<and>
           (join (split (fst (get_originals nt))) = fst (get_originals nt) \<longrightarrow>
              fst (get_masked nt) = fst (get_originals nt))"
proof -
  from assms have "NumberTag_init sentence equation = Inr (built sentence equation)"
    by (simp add: init_char)
  moreover have "lookup_table (built sentence equation) = []"
    using assms by (simp add: built_simps table_of_def)
  moreover have "fst (get_masked (built sentence equation)) =
      join (split (fst (get_originals (built sentence equation))))"
    using assms by (simp add: get_masked_def get_originals_def built_simps retag_no_numbers numeric_words_def)
  ultimately show ?thesis by auto
qed

text \<open>
  C8, witness: a sentence without numbers, single-spaced.
\<close>

theorem no_numbers_sentence_witness:
  "\<exists>nt. NumberTag_init ''how many apples ?'' ''x = 1.0'' = Inr nt \<and> lookup_table nt = [] \<and>
      fst (get_masked nt) = fst (get_originals nt)"
proof -
  have h: "numeric_words (normalize_numbers ''how many apples ?'') = []" by code_simp
  have n: "NumberTag_init ''how many apples ?'' ''x = 1.0'' = Inr (built ''how many apples ?'' ''x = 1.0'')"
    using h by (simp add: init_char)
  have j: "join (split (normalize_numbers ''how many apples ?'')) = normalize_numbers ''how many apples ?''"
    by code_simp
  from no_numbers_sentence[OF h, of "''x = 1.0''"] obtain nt where
    "NumberTag_init ''how many apples ?'' ''x = 1.0'' = Inr nt" "lookup_table nt = []"
    "join (split (fst (get_originals nt))) = fst (get_originals nt) \<longrightarrow>
              fst (get_masked nt) = fst (get_originals nt)" by blast
  moreover from this(1) n have "nt = built ''how many apples ?'' ''x = 1.0''" by simp
  ultimately show ?thesis using j by (auto simp: get_originals_def built_simps)
qed

text \<open>
  C9, counterexample. With the sentence \<open>5\<close> and the equation \<open>5\<close> the tagged sentence and
  the tagged equation are \<open><x>\<close>, not the join of the words of their source, and unmasking
  \<open><x>\<close> does not give \<open><x>\<close> back: the outputs are joins of the rewritten words.
\<close>

theorem masked_outputs_counterexample:
  "NumberTag_init ''5'' ''5'' =
     Inr \<lparr>original_sentence = ''5'', original_equation = ''5'',
          tagged_sentence = ''<x>'', tagged_equation = ''<x>'',
          lookup_table = [(''<x>'', ''5'')]\<rparr> \<and>
   ''<x>'' \<noteq> join (split ''5'') \<and>
   unmask_sentence \<lparr>original_sentence = ''5'', original_equation = ''5'',
          tagged_sentence = ''<x>'', tagged_equation = ''<x>'',
          lookup_table = [(''<x>'', ''5'')]\<rparr> ''<x>'' \<noteq> join (split ''<x>'')"
  by code_simp

text \<open>
  C9, as the code has it. After a successful construction the original strings are the
  normalized inputs and hold the whitespace characters of the inputs unchanged. The tagged
  sentence is the single-space join of the words of the normalized sentence with each numeric
  word replaced by its tag; the tagged equation is the single-space join of the words of the
  normalized equation with each first occurrence of a word of the reverse map replaced by its
  tag; every result of \<open>unmask_sentence\<close> is the single-space join of the words of its
  argument with each key of the lookup table replaced by its value. Each of these outputs is
  the single-space join of its own words, with as many words as its source; and where nothing
  is replaced (no numeric word in the sentence, no equation word equal to one, no key among
  the words of the text) it is the single-space join of the words of its source.
\<close>

theorem masked_outputs_single_spaced:
  assumes "NumberTag_init sentence equation = Inr nt"
  shows "original_sentence nt = normalize_numbers sentence \<and>
    original_equation nt = normalize_numbers equation \<and>
    filter isspace (original_sentence nt) = filter isspace sentence \<and>
    filter isspace (original_equation nt) = filter isspace equation \<and>
    join (split (tagged_sentence nt)) = tagged_sentence nt \<and>
    length (split (tagged_sentence nt)) = length (split (original_sentence nt)) \<and>
    (\<forall>i<length (split (original_sentence nt)).
       \<not> parses_as_float (split (original_sentence nt) ! i) \<longrightarrow>
       split (tagged_sentence nt) ! i = split (original_sentence nt) ! i) \<and>
    (numeric_words (original_sentence nt) = [] \<longrightarrow>
       tagged_sentence nt = join (split (original_sentence nt))) \<and>
    join (split (tagged_equation nt)) = tagged_equation nt \<and>
    length (split (tagged_equation nt)) = length (split (original_equation nt)) \<and>
    (set (split (original_equation nt)) \<inter> set (numeric_words (original_sentence nt)) = {} \<longrightarrow>
       tagged_equation nt = join (split (original_equation nt))) \<and>
    join (split (unmask_sentence nt text)) = unmask_sentence nt text \<and>
    length (split (unmask_sentence nt text)) = length (split text) \<and>
    tagged_sentence nt =
      join (map (\<lambda>i. if parses_as_float (split (original_sentence nt) ! i)
                     then tag_key (TAGS ! length (filter parses_as_float
                                                  (take i (split (original_sentence nt)))))
                     else split (original_sentence nt) ! i)
                [0..<length (split (original_sentence nt))]) \<and>
    tagged_equation nt =
      join (map (\<lambda>j. if split (original_equation nt) ! j \<in> set (take j (split (original_equation nt)))
                     then split (original_equation nt) ! j
                     else case map_of (invert (lookup_table nt)) (split (original_equation nt) ! j) of
                            Some t \<Rightarrow> t | None \<Rightarrow> split (original_equation nt) ! j)
                [0..<length (split (original_equation nt))]) \<and>
    unmask_sentence nt text =
      join (map (\<lambda>w. case map_of (lookup_table nt) w of Some v \<Rightarrow> v | None \<Rightarrow> w) (split text)) \<and>
    split (unmask_sentence nt text) =
      map (\<lambda>w. case map_of (lookup_table nt) w of Some v \<Rightarrow> v | None \<Rightarrow> w) (split text) \<and>
    (set (split text) \<inter> fst ` set (lookup_table nt) = {} \<longrightarrow>
       unmask_sentence nt text = join (split text))"
proof -
  from init_Inr[OF assms] have nt: "nt = built sentence equation"
    and len: "length (numeric_words (normalize_numbers sentence)) \<le> length TAGS" by simp_all
  let ?s = "normalize_numbers sentence" and ?e = "normalize_numbers equation"
  let ?d = "table_of (numeric_words ?s)"
  have 1: "original_sentence nt = ?s" "original_equation nt = ?e"
    by (simp_all add: nt built_simps)
  have lt: "lookup_table nt = ?d" by (simp add: nt built_simps)
  have 2: "filter isspace (original_sentence nt) = filter isspace sentence"
    "filter isspace (original_equation nt) = filter isspace equation"
    by (simp_all add: 1 filter_isspace_normalize)
  have ts: "split (tagged_sentence nt) = retag 0 (split ?s)"
    unfolding nt built_simps by (rule split_join_retag[OF len])
  have te: "split (tagged_equation nt) = tag_equation (split ?e) (invert ?d)"
    unfolding nt built_simps by (rule split_join_tag_equation[OF len])
  have 3: "join (split (tagged_sentence nt)) = tagged_sentence nt"
    unfolding ts by (simp add: nt built_simps)
  have 4: "length (split (tagged_sentence nt)) = length (split (original_sentence nt))"
    unfolding ts 1 by (rule length_retag)
  have 5: "\<forall>i<length (split (original_sentence nt)).
       \<not> parses_as_float (split (original_sentence nt) ! i) \<longrightarrow>
       split (tagged_sentence nt) ! i = split (original_sentence nt) ! i"
    unfolding ts 1 by (simp add: retag_nth_other)
  have 6: "numeric_words (original_sentence nt) = [] \<longrightarrow>
       tagged_sentence nt = join (split (original_sentence nt))"
    unfolding 1 by (simp add: nt built_simps numeric_words_def retag_no_numbers)
  have 7: "join (split (tagged_equation nt)) = tagged_equation nt"
    unfolding te by (simp add: nt built_simps)
  have 8: "length (split (tagged_equation nt)) = length (split (original_equation nt))"
    unfolding te 1 by (rule length_tag_equation)
  have 9: "set (split (original_equation nt)) \<inter> set (numeric_words (original_sentence nt)) = {} \<longrightarrow>
       tagged_equation nt = join (split (original_equation nt))"
  proof
    assume "set (split (original_equation nt)) \<inter> set (numeric_words (original_sentence nt)) = {}"
    then have "\<forall>w\<in>set (split ?e). map_of (invert ?d) w = None"
      unfolding 1 using map_of_invert_none[OF len] by blast
    from tag_equation_id[OF this] show "tagged_equation nt = join (split (original_equation nt))"
      by (simp add: nt built_simps)
  qed
  have um: "split (unmask_sentence nt text) = map (um ?d) (split text)"
    unfolding unmask_sentence_def unmask_word_um nt built_simps
    by (rule split_join[OF unmask_words_good[OF len]])
  have 10: "join (split (unmask_sentence nt text)) = unmask_sentence nt text"
    unfolding um by (simp add: unmask_sentence_def unmask_word_um nt built_simps)
  have 11: "length (split (unmask_sentence nt text)) = length (split text)"
    unfolding um by simp
  have 12: "tagged_sentence nt =
      join (map (\<lambda>i. if parses_as_float (split (original_sentence nt) ! i)
                     then tag_key (TAGS ! length (filter parses_as_float
                                                  (take i (split (original_sentence nt)))))
                     else split (original_sentence nt) ! i)
                [0..<length (split (original_sentence nt))])"
    unfolding 1 retag_eq_map[symmetric] by (simp add: nt built_simps)
  have 13: "tagged_equation nt =
      join (map (\<lambda>j. if split (original_equation nt) ! j \<in> set (take j (split (original_equation nt)))
                     then split (original_equation nt) ! j
                     else case map_of (invert (lookup_table nt)) (split (original_equation nt) ! j) of
                            Some t \<Rightarrow> t | None \<Rightarrow> split (original_equation nt) ! j)
                [0..<length (split (original_equation nt))])"
    unfolding 1 lt tag_equation_eq_map[symmetric] by (simp add: nt built_simps)
  have 14: "unmask_sentence nt text =
      join (map (\<lambda>w. case map_of (lookup_table nt) w of Some v \<Rightarrow> v | None \<Rightarrow> w) (split text))"
    unfolding unmask_sentence_def unmask_word_um um_lambda ..
  have 15: "split (unmask_sentence nt text) =
      map (\<lambda>w. case map_of (lookup_table nt) w of Some v \<Rightarrow> v | None \<Rightarrow> w) (split text)"
    unfolding um lt um_lambda ..
  have 16: "set (split text) \<inter> fst ` set (lookup_table nt) = {} \<longrightarrow>
       unmask_sentence nt text = join (split text)"
  proof
    assume "set (split text) \<inter> fst ` set (lookup_table nt) = {}"
    from um_no_keys[OF this] show "unmask_sentence nt text = join (split text)"
      by (simp add: unmask_sentence_def unmask_word_um)
  qed
  from 1 2 3 4 5 6 7 8 9 10 11 12 13 14 15 16 show ?thesis by (intro conjI)
qed

text \<open>
  C9, witness: one pair with numbers and irregular whitespace, unmasking a text with both
  tags; one pair without numbers, where nothing is replaced.
\<close>

theorem masked_outputs_single_spaced_witness:
  "NumberTag_init ''  add 2   to  3 '' ''x =  2 + 3'' =
     Inr \<lparr>original_sentence = ''  add 2   to  3 '', original_equation = ''x =  2 + 3'',
          tagged_sentence = ''add <x> to <y>'', tagged_equation = ''x = <x> + <y>'',
          lookup_table = [(''<x>'', ''2''), (''<y>'', ''3'')]\<rparr> \<and>
   unmask_sentence \<lparr>original_sentence = ''  add 2   to  3 '', original_equation = ''x =  2 + 3'',
          tagged_sentence = ''add <x> to <y>'', tagged_equation = ''x = <x> + <y>'',
          lookup_table = [(''<x>'', ''2''), (''<y>'', ''3'')]\<rparr> ''  <y>  and <x> '' = ''3 and 2'' \<and>
   join (split ''add <x> to <y>'') = ''add <x> to <y>'' \<and>
   join (split ''x = <x> + <y>'') = ''x = <x> + <y>'' \<and>
   NumberTag_init ''  how  many ?'' ''x  =  1'' =
     Inr \<lparr>original_sentence = ''  how  many ?'', original_equation = ''x  =  1'',
          tagged_sentence = ''how many ?'', tagged_equation = ''x = 1'', lookup_table = []\<rparr> \<and>
   ''how many ?'' = join (split ''  how  many ?'') \<and>
   ''x = 1'' = join (split ''x  =  1'') \<and>
   unmask_sentence \<lparr>original_sentence = ''  how  many ?'', original_equation = ''x  =  1'',
          tagged_sentence = ''how many ?'', tagged_equation = ''x = 1'', lookup_table = []\<rparr>
      '' so  many '' = join (split '' so  many '')"
proof -
  let ?A = "\<lparr>original_sentence = ''  add 2   to  3 '', original_equation = ''x =  2 + 3'',
          tagged_sentence = ''add <x> to <y>'', tagged_equation = ''x = <x> + <y>'',
          lookup_table = [(''<x>'', ''2''), (''<y>'', ''3'')]\<rparr>"
  let ?B = "\<lparr>original_sentence = ''  how  many ?'', original_equation = ''x  =  1'',
          tagged_sentence = ''how many ?'', tagged_equation = ''x = 1'', lookup_table = []\<rparr>"
  have hA: "NumberTag_init ''  add 2   to  3 '' ''x =  2 + 3'' = Inr ?A" by code_simp
  have hB: "NumberTag_init ''  how  many ?'' ''x  =  1'' = Inr ?B" by code_simp
  note a = masked_outputs_single_spaced[OF hA, of "''  <y>  and <x> ''"]
  note b = masked_outputs_single_spaced[OF hB, of "'' so  many ''"]
  from a have a1: "unmask_sentence ?A ''  <y>  and <x> '' =
      join (map (\<lambda>w. case map_of (lookup_table ?A) w of Some v \<Rightarrow> v | None \<Rightarrow> w)
             (split ''  <y>  and <x> ''))" by blast
  have a2: "join (map (\<lambda>w. case map_of (lookup_table ?A) w of Some v \<Rightarrow> v | None \<Rightarrow> w)
             (split ''  <y>  and <x> '')) = ''3 and 2''" by code_simp
  from a1 a2 have 1: "unmask_sentence ?A ''  <y>  and <x> '' = ''3 and 2''" by (rule trans)
  from a have 2: "join (split (tagged_sentence ?A)) = tagged_sentence ?A" by blast
  from a have 3: "join (split (tagged_equation ?A)) = tagged_equation ?A" by blast
  have n: "numeric_words (original_sentence ?B) = []" by code_simp
  have d: "set (split (original_equation ?B)) \<inter> set (numeric_words (original_sentence ?B)) = {}"
    unfolding n by simp
  have k: "set (split '' so  many '') \<inter> fst ` set (lookup_table ?B) = {}" by simp
  from b n have 4: "tagged_sentence ?B = join (split (original_sentence ?B))" by blast
  from b d have 5: "tagged_equation ?B = join (split (original_equation ?B))" by blast
  from b k have 6: "unmask_sentence ?B '' so  many '' = join (split '' so  many '')" by blast
  have s: "tagged_sentence ?A = ''add <x> to <y>''" "tagged_equation ?A = ''x = <x> + <y>''"
    "tagged_sentence ?B = ''how many ?''" "original_sentence ?B = ''  how  many ?''"
    "tagged_equation ?B = ''x = 1''" "original_equation ?B = ''x  =  1''" by simp_all
  from hA 1 2 3 hB 4 5 6 show ?thesis unfolding s by (intro conjI)
qed

text \<open>
  C10. After a successful construction the lookup table has one entry for each occurrence of
  a numeric word in the normalized sentence, and construction raises \<open>IndexError\<close> exactly when
  there are more occurrences than alphabet symbols.
\<close>

theorem one_tag_per_occurrence:
  "(\<forall>nt. NumberTag_init sentence equation = Inr nt \<longrightarrow>
      length (lookup_table nt) = length (numeric_words (normalize_numbers sentence))) \<and>
   (NumberTag_init sentence equation = Inl IndexError \<longleftrightarrow>
      length TAGS < length (numeric_words (normalize_numbers sentence)))"
proof (intro conjI allI impI)
  fix nt assume a: "NumberTag_init sentence equation = Inr nt"
  from init_Inr[OF a] show "length (lookup_table nt) = length (numeric_words (normalize_numbers sentence))"
    by (simp add: built_simps length_table_of)
next
  show "NumberTag_init sentence equation = Inl IndexError \<longleftrightarrow>
      length TAGS < length (numeric_words (normalize_numbers sentence))"
    by (simp add: init_char)
qed

text \<open>
  C10, witness: the same number twice gives two entries; nine occurrences of a single number
  raise.
\<close>

theorem one_tag_per_occurrence_witness:
  "length (lookup_table \<lparr>original_sentence = ''3 and 3'', original_equation = ''x = 3 * 3'',
          tagged_sentence = ''<x> and <y>'', tagged_equation = ''x = <y> * 3'',
          lookup_table = [(''<x>'', ''3''), (''<y>'', ''3'')]\<rparr>) =
     length (numeric_words (normalize_numbers ''3 and 3'')) \<and>
   NumberTag_init ''1 1 1 1 1 1 1 1 1'' ''x = 1'' = Inl IndexError \<and>
   card (set (numeric_words (normalize_numbers ''1 1 1 1 1 1 1 1 1''))) = 1"
proof -
  have h: "NumberTag_init ''3 and 3'' ''x = 3 * 3'' =
     Inr \<lparr>original_sentence = ''3 and 3'', original_equation = ''x = 3 * 3'',
          tagged_sentence = ''<x> and <y>'', tagged_equation = ''x = <y> * 3'',
          lookup_table = [(''<x>'', ''3''), (''<y>'', ''3'')]\<rparr>"
    by code_simp
  have n: "length TAGS < length (numeric_words (normalize_numbers ''1 1 1 1 1 1 1 1 1''))"
    by code_simp
  have c: "card (set (numeric_words (normalize_numbers ''1 1 1 1 1 1 1 1 1''))) = 1"
    by code_simp
  from one_tag_per_occurrence[of "''3 and 3''" "''x = 3 * 3''", THEN conjunct1, rule_format, OF h]
    one_tag_per_occurrence[of "''1 1 1 1 1 1 1 1 1''" "''x = 1''", THEN conjunct2, THEN iffD2, OF n] c
  show ?thesis by (intro conjI)
qed

end
